theory Spec2Isabelle
  imports Complex_Main "HOL-Library.Log_Nat" "HOL-Library.Multiset"
begin

section \<open>The value tree\<close>

text \<open>
  A decoded document is an \<^verbatim>\<open>interface{}\<close> holding \<^verbatim>\<open>nil\<close>, a \<^verbatim>\<open>bool\<close>, a
  \<^verbatim>\<open>float64\<close>, a \<^verbatim>\<open>string\<close>, a \<^verbatim>\<open>[]interface{}\<close> or a
  \<^verbatim>\<open>map[string]interface{}\<close>. Every number the decoder yields is a finite float, so it
  is carried as a real. A Go map has one value per key and no iteration order of its own:
  a \<open>JObject\<close> is the list of its entries in the order in which the run at hand ranges
  over it, and \<open>map_of\<close> is the lookup. One and the same Go map is every permutation of
  its entries (relation \<open>reordered\<close> below).
\<close>

datatype json =
    JNull
  | JBool bool
  | JNumber real
  | JString string
  | JArray "json list"
  | JObject "(string \<times> json) list"

text \<open>
  Two listings of one value: the same tree, every object with one value per key, its
  entries listed in any order on the right. Two runs over an unmodified document see two
  listings of it, since each \<^verbatim>\<open>range\<close> over a map picks its order afresh.
\<close>

inductive reordered :: "json \<Rightarrow> json \<Rightarrow> bool" where
  Null: "reordered JNull JNull"
| Bool: "reordered (JBool b) (JBool b)"
| Number: "reordered (JNumber x) (JNumber x)"
| String: "reordered (JString s) (JString s)"
| Array: "list_all2 reordered xs ys \<Longrightarrow> reordered (JArray xs) (JArray ys)"
| Object:
    "list_all2 (\<lambda>kv kv'. fst kv = fst kv' \<and> reordered (snd kv) (snd kv')) m m' \<Longrightarrow>
     distinct (map fst m) \<Longrightarrow> mset m'' = mset m' \<Longrightarrow>
     reordered (JObject m) (JObject m'')"

text \<open>The runtime panics of Go that the code can reach.\<close>

datatype panic =
    SliceBoundsOutOfRange
  | IndexOutOfRange
  | NilFuncCall
  | ReflectPanic

type_synonym 'a result = "panic + 'a"

text \<open>
  \<^verbatim>\<open>for _, x := range xs { ret = append(ret, g(x)...) }\<close>: the outputs are appended from
  left to right and the first panic ends the loop.
\<close>

fun appendAll :: "('a \<Rightarrow> 'b list result) \<Rightarrow> 'a list \<Rightarrow> 'b list result" where
  "appendAll g [] = Inr []"
| "appendAll g (x # xs) =
     (case g x of
        Inl e \<Rightarrow> Inl e
      | Inr ys \<Rightarrow> (case appendAll g xs of Inl e \<Rightarrow> Inl e | Inr zs \<Rightarrow> Inr (ys @ zs)))"

lemma appendAll_cong [fundef_cong]:
  "xs = ys \<Longrightarrow> (\<And>x. x \<in> set ys \<Longrightarrow> g x = h x) \<Longrightarrow> appendAll g xs = appendAll h ys"
  by (induction ys arbitrary: xs) (auto split: sum.splits)

section \<open>The segment grammars\<close>

text \<open>
  The three patterns of \<^verbatim>\<open>filterMapping\<close> use a literal character, \<^verbatim>\<open>\w\<close> and
  \<^verbatim>\<open>.\<close>, each repeated a fixed number of times or with a greedy \<^verbatim>\<open>+\<close>. Strings are
  byte lists; \<^verbatim>\<open>\w\<close> is ASCII only and \<^verbatim>\<open>.\<close> is every character but the newline,
  and since the literals are ASCII a match begins and ends between characters in UTF-8 too.
\<close>

datatype cls = Lit char | Word | AnyChar

datatype rep = Times nat | Plus

type_synonym regex = "(cls \<times> rep) list"

definition isDigit :: "char \<Rightarrow> bool" where
  "isDigit c = (let n = (of_char c :: nat) in 48 \<le> n \<and> n \<le> 57)"

definition isWord :: "char \<Rightarrow> bool" where
  "isWord c =
     (let n = (of_char c :: nat)
      in (48 \<le> n \<and> n \<le> 57) \<or> (65 \<le> n \<and> n \<le> 90) \<or> n = 95 \<or> (97 \<le> n \<and> n \<le> 122))"

fun accepts :: "cls \<Rightarrow> char \<Rightarrow> bool" where
  "accepts (Lit c) x = (x = c)"
| "accepts Word x = isWord x"
| "accepts AnyChar x = (x \<noteq> CHR 0x0A)"

text \<open>
  \<open>rmatch r s\<close> is the length of the match of \<open>r\<close> at the start of \<open>s\<close> that a
  leftmost-first (backtracking) matcher finds: a greedy \<^verbatim>\<open>+\<close> takes the longest run and
  gives characters back one at a time until the rest of the pattern matches.
\<close>

fun rmatch :: "regex \<Rightarrow> string \<Rightarrow> nat option" where
  "rmatch [] s = Some 0"
| "rmatch ((c, Times n) # r) s =
     (if n \<le> length s \<and> list_all (accepts c) (take n s)
      then map_option ((+) n) (rmatch r (drop n s)) else None)"
| "rmatch ((c, Plus) # r) s =
     (case List.map_filter (\<lambda>j. map_option ((+) j) (rmatch r (drop j s)))
             (rev [1 ..< Suc (length (takeWhile (accepts c) s))]) of
        [] \<Rightarrow> None
      | n # _ \<Rightarrow> Some n)"

definition descendingPattern :: regex where
  "descendingPattern = [(Lit CHR ''.'', Times 2), (Word, Plus)]"

definition attributePattern :: regex where
  "attributePattern = [(Lit CHR ''.'', Times 1), (Word, Plus)]"

definition idxPattern :: regex where
  "idxPattern = [(Lit CHR ''['', Times 1), (AnyChar, Plus), (Lit CHR '']'', Times 1)]"

section \<open>Integers of the index filter\<close>

text \<open>
  \<^verbatim>\<open>strconv.Atoi\<close>: an optional sign, then one or more decimal digits and nothing else;
  a value outside the 64-bit \<^verbatim>\<open>int\<close> is a range error. Every error is \<open>None\<close>.
\<close>

definition digitsVal :: "string \<Rightarrow> int" where
  "digitsVal ds = foldl (\<lambda>a c. 10 * a + (int (of_char c) - 48)) 0 ds"

definition Atoi :: "string \<Rightarrow> int option" where
  "Atoi s =
     (case s of
        [] \<Rightarrow> None
      | c # r \<Rightarrow>
          (let neg = (c = CHR ''-'');
               ds = (if c = CHR ''-'' \<or> c = CHR ''+'' then r else s)
           in if ds = [] \<or> \<not> list_all isDigit ds then None
              else (let v = (if neg then - digitsVal ds else digitsVal ds)
                    in if - (2 ^ 63) \<le> v \<and> v < 2 ^ 63 then Some v else None)))"

text \<open>
  \<^verbatim>\<open>float64(x)\<close> of an integer: exact below \<open>2 ^ 53\<close>, rounded to 53 significant bits
  (to nearest, ties to even) above. The integers met here are 64-bit, far below the
  largest float.
\<close>

definition float64 :: "int \<Rightarrow> int" where
  "float64 x =
     (let a = \<bar>x\<bar>
      in if a < 2 ^ 53 then x
         else (let e = floorlog 2 (nat a) - 53;
                   q = a div 2 ^ e;
                   r = a mod 2 ^ e;
                   h = 2 ^ (e - 1);
                   m = (if h < r \<or> (r = h \<and> odd q) then q + 1 else q) * 2 ^ e
               in sgn x * m))"

definition outOfRange :: "int \<Rightarrow> 'a list \<Rightarrow> bool" where
  "outOfRange idx sl = (\<bar>float64 idx\<bar> \<ge> float64 (int (length sl)))"

text \<open>
  \<^verbatim>\<open>s[lo:hi]\<close> on a slice panics unless \<open>0 \<le> lo \<le> hi \<le> cap s\<close>. The slices of a
  decoded document are cut nowhere else, and the index filter never asks beyond the
  length, so the length stands for the capacity.
\<close>

definition goSlice :: "'a list \<Rightarrow> int \<Rightarrow> int \<Rightarrow> 'a list result" where
  "goSlice s lo hi =
     (if 0 \<le> lo \<and> lo \<le> hi \<and> hi \<le> int (length s)
      then Inr (take (nat hi - nat lo) (drop (nat lo) s))
      else Inl SliceBoundsOutOfRange)"

text \<open>\<^verbatim>\<open>strings.Split(s, ":")\<close> for a one-character separator: always at least one piece.\<close>

fun Split :: "string \<Rightarrow> char \<Rightarrow> string list" where
  "Split [] sep = [[]]"
| "Split (c # cs) sep =
     (if c = sep then [] # Split cs sep
      else (case Split cs sep of p # ps \<Rightarrow> (c # p) # ps | [] \<Rightarrow> [[c]]))"

section \<open>The filters\<close>

type_synonym filter = "string \<Rightarrow> json \<Rightarrow> json list result"

text \<open>\<^verbatim>\<open>f[1:]\<close> panics on the empty string.\<close>

fun attributeFilter :: filter where
  "attributeFilter f v =
     (if length f < 1 then Inl SliceBoundsOutOfRange
      else (case v of
              JObject msi \<Rightarrow>
                (case map_of msi (drop 1 f) of
                   None \<Rightarrow> Inr []
                 | Some attr \<Rightarrow> Inr [attr])
            | _ \<Rightarrow> Inr []))"

text \<open>
  The bound of the slice access: the empty piece is the default, any other piece must
  parse and be in range, and a negative value is counted from the end. \<open>None\<close> is the
  early \<^verbatim>\<open>return make([]interface{}, 0)\<close>.
\<close>

definition sliceBound :: "string \<Rightarrow> int \<Rightarrow> json list \<Rightarrow> int option" where
  "sliceBound piece dflt slice =
     (if piece = [] then Some (if dflt < 0 then dflt + int (length slice) else dflt)
      else (case Atoi piece of
              None \<Rightarrow> None
            | Some b \<Rightarrow>
                if outOfRange b slice then None
                else Some (if b < 0 then b + int (length slice) else b)))"

definition idxFilter :: filter where
  "idxFilter f0 v =
     (if length f0 < 2 then Inl SliceBoundsOutOfRange
      else (let f = take (length f0 - 2) (drop 1 f0)
            in (case v of
                  JArray slice \<Rightarrow>
                    if f = ''*'' then Inr slice
                    else (case Atoi f of
                            Some i \<Rightarrow>
                              if outOfRange i slice then Inr []
                              else (let start = (if i < 0 then i + int (length slice) else i)
                                    in goSlice slice start (start + 1))
                          | None \<Rightarrow>
                              (let sl = Split f CHR '':''
                               in if length sl > 0
                                  then (case sliceBound (sl ! 0) 0 slice of
                                          None \<Rightarrow> Inr []
                                        | Some start \<Rightarrow>
                                            if length sl < 2 then Inl IndexOutOfRange
                                            else (case sliceBound (sl ! 1) (int (length slice)) slice of
                                                    None \<Rightarrow> Inr []
                                                  | Some end \<Rightarrow> goSlice slice start end))
                                  else Inr []))
                | _ \<Rightarrow> Inr [])))"

text \<open>
  \<^verbatim>\<open>f[2:]\<close> is evaluated in the map case only, and panics there on a text shorter than
  two characters.
\<close>

function descendingAttributeFilter :: filter where
  "descendingAttributeFilter f (JObject m) =
     (if length f < 2 then Inl SliceBoundsOutOfRange
      else (case map_of m (drop 2 f) of
              Some c \<Rightarrow> Inr [c]
            | None \<Rightarrow> appendAll (\<lambda>kv. descendingAttributeFilter f (snd kv)) m))"
| "descendingAttributeFilter f (JArray xs) = appendAll (descendingAttributeFilter f) xs"
| "descendingAttributeFilter f JNull = Inr []"
| "descendingAttributeFilter f (JBool b) = Inr []"
| "descendingAttributeFilter f (JNumber x) = Inr []"
| "descendingAttributeFilter f (JString s) = Inr []"
  by pat_completeness auto
termination
proof (relation "measure (\<lambda>(f, v). size v)")
  show "wf (measure (\<lambda>(f, v). size v))" by simp
next
  fix f :: string and m :: "(string \<times> json) list" and x
  assume "x \<in> set m"
  then have "size (snd x) < Suc (size_list (size_prod (\<lambda>_. 0) size) m)"
    by (induction m) (auto simp: less_Suc_eq_le)
  then show "((f, snd x), (f, JObject m)) \<in> measure (\<lambda>(f, v). size v)"
    by simp
next
  fix f :: string and xs :: "json list" and x
  assume "x \<in> set xs"
  then have "size x < Suc (size_list size xs)"
    by (induction xs) (auto simp: less_Suc_eq_le)
  then show "((f, x), (f, JArray xs)) \<in> measure (\<lambda>(f, v). size v)"
    by simp
qed

section \<open>Compiling and running a path\<close>

text \<open>
  \<^verbatim>\<open>filterMapping\<close> pairs each pattern with its filter. \<^verbatim>\<open>init\<close> ranges over this
  map, so the order of the alternatives of \<^verbatim>\<open>matcher\<close>, and with it the order of
  \<^verbatim>\<open>filters\<close>, is whatever the range gives: the functions below take the pairs in that
  order, and \<open>Query\<close> is the run with the order of the source text.
\<close>

definition filterMapping :: "(regex \<times> filter) list" where
  "filterMapping =
     [(descendingPattern, descendingAttributeFilter),
      (attributePattern, attributeFilter),
      (idxPattern, idxFilter)]"

text \<open>
  The alternation \<^verbatim>\<open>(p0)|(p1)|(p2)\<close> at the start of \<open>s\<close>: the first alternative that
  matches, with its position and the length of the match.
\<close>

fun matchAlts :: "regex list \<Rightarrow> string \<Rightarrow> (nat \<times> nat) option" where
  "matchAlts [] s = None"
| "matchAlts (r # rs) s =
     (case rmatch r s of
        Some n \<Rightarrow> Some (0, n)
      | None \<Rightarrow> map_option (\<lambda>(i, n). (Suc i, n)) (matchAlts rs s))"

text \<open>
  One match as \<^verbatim>\<open>FindAllStringSubmatch\<close> reports it: the matched text, then one string
  per group, empty for the groups that took no part.
\<close>

definition submatches :: "nat \<Rightarrow> nat \<Rightarrow> string \<Rightarrow> string list" where
  "submatches k i text = text # map (\<lambda>j. if j = i then text else []) [0 ..< k]"

text \<open>
  All matches from left to right, none overlapping: the search goes on where the last
  match ended, one character further where nothing matches (and after an empty match,
  which these patterns never give).
\<close>

function FindAllStringSubmatch :: "regex list \<Rightarrow> string \<Rightarrow> string list list" where
  "FindAllStringSubmatch alts s =
     (if s = [] then []
      else (case matchAlts alts s of
              None \<Rightarrow> FindAllStringSubmatch alts (tl s)
            | Some (i, n) \<Rightarrow>
                submatches (length alts) i (take n s)
                  # FindAllStringSubmatch alts (drop (max 1 n) s)))"
  by pat_completeness auto
termination
  by (relation "measure (\<lambda>(alts, s). length s)") (auto simp: neq_Nil_conv)

declare FindAllStringSubmatch.simps [simp del]

text \<open>
  \<^verbatim>\<open>filterForSegmentResults\<close>: the filter at the position of the first group that is not
  empty; \<^verbatim>\<open>nil\<close> when every group is empty.
\<close>

fun filterForSegmentResultsFrom ::
  "filter list \<Rightarrow> nat \<Rightarrow> string list \<Rightarrow> (filter option \<times> string) result" where
  "filterForSegmentResultsFrom filters i [] = Inr (None, [])"
| "filterForSegmentResultsFrom filters i (segmentResult # rest) =
     (if segmentResult = [] then filterForSegmentResultsFrom filters (Suc i) rest
      else if i < length filters then Inr (Some (filters ! i), segmentResult)
      else Inl IndexOutOfRange)"

definition filterForSegmentResults ::
  "filter list \<Rightarrow> string list \<Rightarrow> (filter option \<times> string) result" where
  "filterForSegmentResults filters segmentResults =
     filterForSegmentResultsFrom filters 0 segmentResults"

text \<open>Calling a \<^verbatim>\<open>nil\<close> function value panics.\<close>

definition callFilter :: "filter option \<Rightarrow> string \<Rightarrow> json \<Rightarrow> json list result" where
  "callFilter f s v = (case f of None \<Rightarrow> Inl NilFuncCall | Some g \<Rightarrow> g s v)"

text \<open>
  The loop of \<^verbatim>\<open>Query\<close> over the segments. \<^verbatim>\<open>segmentResults[1:]\<close> panics on a match
  with no strings at all.
\<close>

fun querySegments :: "filter list \<Rightarrow> json list \<Rightarrow> string list list \<Rightarrow> json list result" where
  "querySegments filters objs [] = Inr objs"
| "querySegments filters objs (segmentResults # segments) =
     (if length segmentResults < 1 then Inl SliceBoundsOutOfRange
      else (case filterForSegmentResults filters (drop 1 segmentResults) of
              Inl e \<Rightarrow> Inl e
            | Inr (f, s) \<Rightarrow>
                (case appendAll (callFilter f s) objs of
                   Inl e \<Rightarrow> Inl e
                 | Inr tempObjs \<Rightarrow> querySegments filters tempObjs segments)))"

text \<open>A \<^verbatim>\<open>Jpath\<close> holds the root map \<^verbatim>\<open>m\<close>.\<close>

type_synonym Jpath = "(string \<times> json) list"

definition QueryWith :: "(regex \<times> filter) list \<Rightarrow> Jpath \<Rightarrow> string \<Rightarrow> json list result" where
  "QueryWith fm j sel =
     (let segments = FindAllStringSubmatch (map fst fm) sel
      in querySegments (map snd fm) [JObject j] segments)"

definition Query :: "Jpath \<Rightarrow> string \<Rightarrow> json list result" where
  "Query j sel = QueryWith filterMapping j sel"

section \<open>Typed accessors\<close>

text \<open>
  Each single-value accessor ranges over the results and returns inside the first
  iteration, on either branch of the type assertion; with no result it returns the zero
  value and \<open>False\<close>. A panic of \<open>Query\<close> passes through.
\<close>

definition String :: "Jpath \<Rightarrow> string \<Rightarrow> (string \<times> bool) result" where
  "String j sel =
     (case Query j sel of
        Inl e \<Rightarrow> Inl e
      | Inr results \<Rightarrow>
          (case results of
             [] \<Rightarrow> Inr ([], False)
           | result # _ \<Rightarrow>
               (case result of JString r \<Rightarrow> Inr (r, True) | _ \<Rightarrow> Inr ([], False))))"

definition Bool :: "Jpath \<Rightarrow> string \<Rightarrow> (bool \<times> bool) result" where
  "Bool j sel =
     (case Query j sel of
        Inl e \<Rightarrow> Inl e
      | Inr results \<Rightarrow>
          (case results of
             [] \<Rightarrow> Inr (False, False)
           | result # _ \<Rightarrow>
               (case result of JBool r \<Rightarrow> Inr (r, True) | _ \<Rightarrow> Inr (False, False))))"

definition Float :: "Jpath \<Rightarrow> string \<Rightarrow> (real \<times> bool) result" where
  "Float j sel =
     (case Query j sel of
        Inl e \<Rightarrow> Inl e
      | Inr results \<Rightarrow>
          (case results of
             [] \<Rightarrow> Inr (0, False)
           | result # _ \<Rightarrow>
               (case result of JNumber r \<Rightarrow> Inr (r, True) | _ \<Rightarrow> Inr (0, False))))"

text \<open>The collecting accessors skip the results of another type.\<close>

definition Strings :: "Jpath \<Rightarrow> string \<Rightarrow> string list result" where
  "Strings j sel =
     (case Query j sel of
        Inl e \<Rightarrow> Inl e
      | Inr results \<Rightarrow>
          Inr (List.map_filter (\<lambda>result. case result of JString r \<Rightarrow> Some r | _ \<Rightarrow> None) results))"

definition Bools :: "Jpath \<Rightarrow> string \<Rightarrow> bool list result" where
  "Bools j sel =
     (case Query j sel of
        Inl e \<Rightarrow> Inl e
      | Inr results \<Rightarrow>
          Inr (List.map_filter (\<lambda>result. case result of JBool r \<Rightarrow> Some r | _ \<Rightarrow> None) results))"

definition Floats :: "Jpath \<Rightarrow> string \<Rightarrow> real list result" where
  "Floats j sel =
     (case Query j sel of
        Inl e \<Rightarrow> Inl e
      | Inr results \<Rightarrow>
          Inr (List.map_filter (\<lambda>result. case result of JNumber r \<Rightarrow> Some r | _ \<Rightarrow> None) results))"

section \<open>Unmarshal\<close>

text \<open>
  What \<^verbatim>\<open>unmarshal\<close> sees of a struct through reflection. A field type is one of the
  types a decoded value can have, the empty interface, a slice or map of such, a defined
  type over one of them (\<^verbatim>\<open>type Name T\<close>), or a type of any other kind (\<^verbatim>\<open>int\<close>, a
  struct, a pointer, an interface with methods, ...), which no decoded value has and none
  is assignable to.
\<close>

datatype gotype =
    TBool
  | TFloat64
  | TString
  | TInterface
  | TSlice gotype
  | TMap gotype gotype
  | TDefined string gotype
  | TOther string

datatype kind = Invalid | KBool | KFloat64 | KString | KInterface | KSlice | KMap | KOther string

fun kindOf :: "gotype \<Rightarrow> kind" where
  "kindOf TBool = KBool"
| "kindOf TFloat64 = KFloat64"
| "kindOf TString = KString"
| "kindOf TInterface = KInterface"
| "kindOf (TSlice t) = KSlice"
| "kindOf (TMap k t) = KMap"
| "kindOf (TDefined n t) = kindOf t"
| "kindOf (TOther k) = KOther k"

fun underlying :: "gotype \<Rightarrow> gotype" where
  "underlying (TDefined n t) = underlying t"
| "underlying t = t"

text \<open>The predeclared and the defined types have a name; the type literals have none.\<close>

fun hasName :: "gotype \<Rightarrow> bool" where
  "hasName (TSlice t) = False"
| "hasName (TMap k t) = False"
| "hasName TInterface = False"
| "hasName t = True"

text \<open>
  \<^verbatim>\<open>reflect.ValueOf(result)\<close>: the dynamic type of a decoded value; \<^verbatim>\<open>nil\<close> gives the
  zero \<^verbatim>\<open>Value\<close>, of kind \<^verbatim>\<open>Invalid\<close> and with no type.
\<close>

fun typeOf :: "json \<Rightarrow> gotype option" where
  "typeOf JNull = None"
| "typeOf (JBool b) = Some TBool"
| "typeOf (JNumber x) = Some TFloat64"
| "typeOf (JString s) = Some TString"
| "typeOf (JArray xs) = Some (TSlice TInterface)"
| "typeOf (JObject m) = Some (TMap TString TInterface)"

definition valueKind :: "json \<Rightarrow> kind" where
  "valueKind v = (case typeOf v of None \<Rightarrow> Invalid | Some t \<Rightarrow> kindOf t)"

text \<open>
  Assignability as \<^verbatim>\<open>Value.Set\<close> and \<^verbatim>\<open>reflect.Append\<close> check it: identical types,
  a value for an empty interface, or identical underlying types of which one has no
  name.
\<close>

definition assignable :: "gotype \<Rightarrow> gotype \<Rightarrow> bool" where
  "assignable V T =
     (V = T \<or> kindOf T = KInterface \<or>
      (underlying V = underlying T \<and> \<not> (hasName V \<and> hasName T)))"

text \<open>
  A field of the target struct: its name, whether it can be set (exported), the value of
  its \<^verbatim>\<open>jpath\<close> tag (empty when there is none), its declared type and what it holds.
\<close>

record field =
  fieldName :: string
  canSet :: bool
  fieldTag :: string
  fieldType :: gotype
  fieldValue :: json

datatype uerror =
    MustBeStruct
  | NotAssignable string gotype gotype
  | WillNotFit string gotype gotype

text \<open>How a call ends: \<open>Returned None\<close> is the \<^verbatim>\<open>nil\<close> error.\<close>

datatype outcome = Returned "uerror option" | Panicked panic

text \<open>
  The loop that fills the slice for a slice field. \<^verbatim>\<open>reflect.Append\<close> panics on a
  value that is not assignable to the element type; the deferred function recovers and
  builds the error from \<^verbatim>\<open>resultValue.Type()\<close>, which itself panics on the zero
  \<^verbatim>\<open>Value\<close> of a \<^verbatim>\<open>nil\<close> result, outside any recover.
\<close>

fun appendResults :: "string \<Rightarrow> gotype \<Rightarrow> gotype \<Rightarrow> json list \<Rightarrow> json list \<Rightarrow> outcome + json list" where
  "appendResults name T elem sl [] = Inr sl"
| "appendResults name T elem sl (result # results) =
     (case typeOf result of
        None \<Rightarrow> Inl (Panicked ReflectPanic)
      | Some V \<Rightarrow>
          if assignable V elem then appendResults name T elem (sl @ [result]) results
          else Inl (Returned (Some (WillNotFit name V T))))"

fun elemOf :: "gotype \<Rightarrow> gotype" where
  "elemOf t = (case underlying t of TSlice e \<Rightarrow> e | _ \<Rightarrow> t)"

text \<open>
  One turn of the loop over the fields: \<open>Inr\<close> is the field after a \<^verbatim>\<open>continue\<close> or
  the end of the body, \<open>Inl\<close> is how the call ends in this turn. The query is the tag up
  to its first space.
\<close>

definition unmarshalField :: "Jpath \<Rightarrow> field \<Rightarrow> outcome + field" where
  "unmarshalField d fld =
     (if \<not> canSet fld then Inr fld
      else if fieldTag fld = [] then Inr fld
      else (let tagPieces = Split (fieldTag fld) CHR '' '';
                query = tagPieces ! 0
            in (case Query d query of
                  Inl e \<Rightarrow> Inl (Panicked e)
                | Inr results \<Rightarrow>
                    if kindOf (fieldType fld) \<noteq> KSlice
                    then (case results of
                            [] \<Rightarrow> Inl (Panicked IndexOutOfRange)
                          | result # _ \<Rightarrow>
                              if valueKind result \<noteq> kindOf (fieldType fld)
                              then (case typeOf result of
                                      None \<Rightarrow> Inl (Panicked ReflectPanic)
                                    | Some V \<Rightarrow>
                                        Inl (Returned (Some (NotAssignable (fieldName fld) V (fieldType fld)))))
                              else (case typeOf result of
                                      None \<Rightarrow> Inl (Panicked ReflectPanic)
                                    | Some V \<Rightarrow>
                                        if assignable V (fieldType fld)
                                        then Inr (fld\<lparr>fieldValue := result\<rparr>)
                                        else Inl (Panicked ReflectPanic)))
                    else (case appendResults (fieldName fld) (fieldType fld)
                                 (elemOf (fieldType fld)) [] results of
                            Inl e \<Rightarrow> Inl e
                          | Inr sl \<Rightarrow> Inr (fld\<lparr>fieldValue := JArray sl\<rparr>)))))"

text \<open>
  The loop over the fields, with the struct as it stands when the call ends: the fields
  already passed keep what they were given, the others are untouched.
\<close>

fun unmarshalFields :: "Jpath \<Rightarrow> field list \<Rightarrow> outcome \<times> field list" where
  "unmarshalFields d [] = (Returned None, [])"
| "unmarshalFields d (fld # rest) =
     (case unmarshalField d fld of
        Inl e \<Rightarrow> (e, fld # rest)
      | Inr fld' \<Rightarrow> (case unmarshalFields d rest of (e, rest') \<Rightarrow> (e, fld' # rest')))"

text \<open>
  The argument \<^verbatim>\<open>v\<close>: a pointer to a struct, a pointer to something else, or no
  pointer at all, on which \<^verbatim>\<open>Elem\<close> panics.
\<close>

datatype target = PtrToStruct "field list" | PtrToOther | NoPointer

fun unmarshal :: "Jpath \<Rightarrow> target \<Rightarrow> outcome \<times> target" where
  "unmarshal d NoPointer = (Panicked ReflectPanic, NoPointer)"
| "unmarshal d PtrToOther = (Returned (Some MustBeStruct), PtrToOther)"
| "unmarshal d (PtrToStruct flds) =
     (case unmarshalFields d flds of (e, flds') \<Rightarrow> (e, PtrToStruct flds'))"

section \<open>The specification's reading of the filters\<close>

text \<open>
  The descendant search as the specification words it, on the bare attribute name: a
  direct hit gives that one value and nothing else; without a direct hit the search fans
  out into every value of the object, or every element of the array, and the results
  are concatenated; a scalar gives nothing.
\<close>

function descendantSpec :: "string \<Rightarrow> json \<Rightarrow> json list" where
  "descendantSpec name (JObject m) =
     (case map_of m name of
        Some c \<Rightarrow> [c]
      | None \<Rightarrow> concat (map (\<lambda>kv. descendantSpec name (snd kv)) m))"
| "descendantSpec name (JArray xs) = concat (map (descendantSpec name) xs)"
| "descendantSpec name JNull = []"
| "descendantSpec name (JBool b) = []"
| "descendantSpec name (JNumber x) = []"
| "descendantSpec name (JString s) = []"
  by pat_completeness auto
termination
proof (relation "measure (\<lambda>(name, v). size v)")
  show "wf (measure (\<lambda>(name, v). size v))" by simp
next
  fix name :: string and m :: "(string \<times> json) list" and x
  assume "x \<in> set m"
  then have "size (snd x) < Suc (size_list (size_prod (\<lambda>_. 0) size) m)"
    by (induction m) (auto simp: less_Suc_eq_le)
  then show "((name, snd x), (name, JObject m)) \<in> measure (\<lambda>(name, v). size v)"
    by simp
next
  fix name :: string and xs :: "json list" and x
  assume "x \<in> set xs"
  then have "size x < Suc (size_list size xs)"
    by (induction xs) (auto simp: less_Suc_eq_le)
  then show "((name, x), (name, JArray xs)) \<in> measure (\<lambda>(name, v). size v)"
    by simp
qed

text \<open>
  No segment grammar matches anywhere in \<open>sel\<close>: at no position does any alternative
  of the matcher match.
\<close>

definition noSegment :: "string \<Rightarrow> bool" where
  "noSegment sel =
     list_all (\<lambda>k. matchAlts (map fst filterMapping) (drop k sel) = None) [0 ..< length sel]"

text \<open>
  Two runs end alike: in the same panic, or with the same values as often, in whatever
  order, each value in whatever listing.
\<close>

definition sameOutcome :: "json list result \<Rightarrow> json list result \<Rightarrow> bool" where
  "sameOutcome r r' =
     (case r of
        Inl e \<Rightarrow> (case r' of Inl e' \<Rightarrow> e = e' | Inr rs' \<Rightarrow> False)
      | Inr rs \<Rightarrow>
          (case r' of Inl e' \<Rightarrow> False | Inr rs' \<Rightarrow> rel_mset reordered (mset rs) (mset rs')))"

text \<open>What a filter call appends to the working set: nothing when it panics.\<close>

definition outs :: "'a list result \<Rightarrow> 'a list" where
  "outs r = (case r of Inl e \<Rightarrow> [] | Inr ys \<Rightarrow> ys)"

text \<open>
  A match as the matcher of \<open>filterMapping\<close> reports it: one of the three groups holds
  the text, of two characters at least.
\<close>

definition segmentOK :: "string list \<Rightarrow> bool" where
  "segmentOK seg = (\<exists>i t. seg = submatches 3 i t \<and> i < 3 \<and> 2 \<le> length t)"

section \<open>Properties\<close>

subsection \<open>Arithmetic of the range check\<close>

lemma float64_small: "\<bar>x\<bar> < 2 ^ 53 \<Longrightarrow> float64 x = x"
  by (simp add: float64_def)

lemma float64_large:
  assumes "2 ^ 53 \<le> \<bar>x\<bar>"
  shows "2 ^ 53 \<le> \<bar>float64 x\<bar>"
proof -
  define a where "a = \<bar>x\<bar>"
  define b where "b = floorlog 2 (nat a)"
  define e where "e = b - 53"
  define q where "q = a div 2 ^ e"
  define r where "r = a mod 2 ^ e"
  define m where "m = (if 2 ^ (e - 1) < r \<or> (r = 2 ^ (e - 1) \<and> odd q) then q + 1 else q) * 2 ^ e"
  have a53: "2 ^ 53 \<le> a" using assms by (simp add: a_def)
  then have apos: "0 < nat a" by simp
  have n53: "(2::nat) ^ 53 \<le> nat a" using a53 by (simp add: le_nat_iff)
  have b54: "Suc 53 \<le> b" unfolding b_def
    by (rule floorlog_ge_SucI [where w = 53 and b = 2 and x = "nat a"]) (use n53 in simp_all)
  have "(2::nat) ^ (b - 1) \<le> nat a"
    unfolding b_def using floorlog_bounds [where x = "nat a" and b = 2] apos by simp
  then have "int ((2::nat) ^ (b - 1)) \<le> int (nat a)" by (simp only: of_nat_le_iff)
  then have lo: "(2::int) ^ (b - 1) \<le> a" using a53 by simp
  have be: "b - 1 = e + 52" using b54 by (simp add: e_def)
  have lo': "(2::int) ^ 52 * 2 ^ e \<le> a" using lo by (simp only: be power_add mult.commute)
  have "(2::int) ^ 52 = (2 ^ 52 * 2 ^ e) div 2 ^ e" by simp
  also have "\<dots> \<le> a div 2 ^ e" by (rule zdiv_mono1 [OF lo']) simp
  finally have q52: "2 ^ 52 \<le> q" by (simp add: q_def)
  have e1: "1 \<le> e" using b54 by (simp add: e_def)
  have "(2::int) ^ 1 \<le> 2 ^ e" by (rule power_increasing [OF e1]) simp
  then have "(2::int) ^ 52 * 2 ^ 1 \<le> 2 ^ 52 * 2 ^ e" by (rule mult_left_mono) simp
  then have "(2::int) ^ 53 \<le> 2 ^ 52 * 2 ^ e" by simp
  also have "\<dots> \<le> q * 2 ^ e" by (rule mult_right_mono [OF q52]) simp
  also have "\<dots> \<le> m" unfolding m_def by (simp add: mult_right_mono)
  finally have m53: "2 ^ 53 \<le> m" .
  have "float64 x = sgn x * m"
    using a53 unfolding float64_def Let_def m_def r_def q_def e_def b_def a_def by simp
  moreover have "x \<noteq> 0" using assms by auto
  ultimately have "\<bar>float64 x\<bar> = \<bar>m\<bar>" by (simp add: abs_mult abs_sgn_eq)
  then show ?thesis using m53 by simp
qed

lemma outOfRange_iff:
  assumes "length sl < 2 ^ 53"
  shows "outOfRange idx sl \<longleftrightarrow> int (length sl) \<le> \<bar>idx\<bar>"
proof -
  have n: "float64 (int (length sl)) = int (length sl)"
    using assms by (intro float64_small) simp
  show ?thesis
  proof (cases "\<bar>idx\<bar> < 2 ^ 53")
    case True
    then show ?thesis by (simp add: outOfRange_def n float64_small)
  next
    case False
    then have big: "2 ^ 53 \<le> \<bar>idx\<bar>" by simp
    have "int (length sl) < 2 ^ 53" using assms by (simp add: zless_nat_eq_int_zless [symmetric] nat_less_iff)
    then show ?thesis using float64_large [OF big] big by (simp add: outOfRange_def n)
  qed
qed

lemma Atoi_not_star: "Atoi s = Some i \<Longrightarrow> s \<noteq> ''*''"
  by (auto simp: Atoi_def isDigit_def)

lemma strip_brackets: "take (length (CHR ''['' # s @ '']'') - 2) (drop 1 (CHR ''['' # s @ '']'')) = s"
  by simp

lemma goSlice_single:
  "0 \<le> k \<Longrightarrow> k < int (length xs) \<Longrightarrow> goSlice xs k (k + 1) = Inr [xs ! nat k]"
proof -
  assume k: "0 \<le> k" "k < int (length xs)"
  then have "nat k < length xs" by simp
  then have "take 1 (drop (nat k) xs) = [xs ! nat k]"
    by (simp add: Cons_nth_drop_Suc [symmetric])
  moreover have "nat (k + 1) - nat k = 1" using k by simp
  ultimately show ?thesis using k by (simp add: goSlice_def)
qed

subsection \<open>Descendant filter\<close>

lemma appendAll_Inr:
  "(\<And>x. x \<in> set xs \<Longrightarrow> g x = Inr (h x)) \<Longrightarrow> appendAll g xs = Inr (concat (map h xs))"
  by (induction xs) auto

lemma descendingAttributeFilter_spec:
  "2 \<le> length f \<Longrightarrow> descendingAttributeFilter f v = Inr (descendantSpec (drop 2 f) v)"
proof (induction f v rule: descendingAttributeFilter.induct)
  case (1 f m)
  show ?case
  proof (cases "map_of m (drop 2 f)")
    case None
    have "appendAll (\<lambda>kv. descendingAttributeFilter f (snd kv)) m =
            Inr (concat (map (\<lambda>kv. descendantSpec (drop 2 f) (snd kv)) m))"
      by (rule appendAll_Inr) (use 1 None in simp)
    then show ?thesis using 1(2) None by simp
  next
    case (Some c)
    then show ?thesis using 1(2) by simp
  qed
next
  case (2 f xs)
  have "appendAll (descendingAttributeFilter f) xs = Inr (concat (map (descendantSpec (drop 2 f)) xs))"
    by (rule appendAll_Inr) (use 2 in simp)
  then show ?case by simp
qed simp_all


text \<open>
  C1. On a segment text of at least two characters (every text the matcher hands over)
  the descendant filter never panics and returns what the specification describes: on an
  object that holds the key itself, exactly the one value bound to it, with no descent
  into any value of the object; on an object without the key, the concatenation of the
  recursive results over all its values; on an array, the concatenation over its
  elements; on a scalar, nothing.
\<close>

theorem descending_refines:
  "2 \<le> length f \<Longrightarrow> descendingAttributeFilter f v = Inr (descendantSpec (drop 2 f) v)"
  by (rule descendingAttributeFilter_spec)

theorem descending_refines_witness:
  "2 \<le> length ''..a'' \<and>
   descendingAttributeFilter ''..a''
     (JObject [(''b'', JObject [(''a'', JNumber 2)]),
              (''a'', JObject [(''a'', JNumber 1)]),
              (''c'', JArray [JObject [(''a'', JNumber 3)]])])
     = Inr [JObject [(''a'', JNumber 1)]] \<and>
   descendingAttributeFilter ''..a''
     (JObject [(''b'', JObject [(''a'', JNumber 2)]),
              (''c'', JArray [JObject [(''a'', JNumber 3)], JString ''a''])])
     = Inr [JNumber 2, JNumber 3]"
  using descending_refines [of "''..a''"
      "JObject [(''b'', JObject [(''a'', JNumber 2)]),
               (''a'', JObject [(''a'', JNumber 1)]),
               (''c'', JArray [JObject [(''a'', JNumber 3)]])]"]
    descending_refines [of "''..a''"
      "JObject [(''b'', JObject [(''a'', JNumber 2)]),
               (''c'', JArray [JObject [(''a'', JNumber 3)], JString ''a''])]"]
  by simp

subsection \<open>Index filter: a single index\<close>

text \<open>
  C2. For an array of length \<open>n\<close> (below \<open>2 ^ 53\<close>, as every slice a machine can
  hold is, so that the conversion of the length to \<^verbatim>\<open>float64\<close> is exact) and a spec
  that \<^verbatim>\<open>Atoi\<close> parses as \<open>i\<close>: for \<open>0 \<le> i < n\<close> the filter returns exactly the
  element at position \<open>i\<close>; for \<open>- n < i < 0\<close> the element at position \<open>i + n\<close>;
  for \<open>i \<ge> n\<close> or \<open>i \<le> - n\<close> the empty sequence, so that \<open>i = - n\<close> is rejected.
\<close>

theorem idxFilter_index:
  assumes "Atoi s = Some i" and "length xs < 2 ^ 53"
  shows "idxFilter (CHR ''['' # s @ '']'') (JArray xs) =
           (if 0 \<le> i \<and> i < int (length xs) then Inr [xs ! nat i]
            else if - int (length xs) < i \<and> i < 0 then Inr [xs ! nat (i + int (length xs))]
            else Inr [])"
proof -
  have f: "idxFilter (CHR ''['' # s @ '']'') (JArray xs) =
             (if outOfRange i xs then Inr []
              else goSlice xs (if i < 0 then i + int (length xs) else i)
                     ((if i < 0 then i + int (length xs) else i) + 1))"
    using assms(1) Atoi_not_star [OF assms(1)]
    by (simp add: idxFilter_def Let_def del: goSlice_def)
  show ?thesis
    unfolding f outOfRange_iff [OF assms(2)]
    by (auto simp: goSlice_single)
qed

theorem idxFilter_index_witness:
  "Atoi ''1'' = Some 1 \<and> Atoi ''-1'' = Some (- 1) \<and> Atoi ''-3'' = Some (- 3) \<and> Atoi ''3'' = Some 3 \<and>
   length [JString ''a'', JString ''b'', JString ''c''] < 2 ^ 53 \<and>
   idxFilter ''[1]'' (JArray [JString ''a'', JString ''b'', JString ''c'']) = Inr [JString ''b''] \<and>
   idxFilter ''[-1]'' (JArray [JString ''a'', JString ''b'', JString ''c'']) = Inr [JString ''c''] \<and>
   idxFilter ''[-3]'' (JArray [JString ''a'', JString ''b'', JString ''c'']) = Inr [] \<and>
   idxFilter ''[3]'' (JArray [JString ''a'', JString ''b'', JString ''c'']) = Inr []"
proof -
  have a: "Atoi ''1'' = Some 1" "Atoi ''-1'' = Some (- 1)" "Atoi ''-3'' = Some (- 3)" "Atoi ''3'' = Some 3"
    by (simp_all add: Atoi_def digitsVal_def isDigit_def)
  have l: "length [JString ''a'', JString ''b'', JString ''c''] < 2 ^ 53" by simp
  show ?thesis
    using a l idxFilter_index [OF a(1) l] idxFilter_index [OF a(2) l]
      idxFilter_index [OF a(3) l] idxFilter_index [OF a(4) l]
    by simp
qed

subsection \<open>Expressions without a segment\<close>

lemma FindAll_Nil [simp]: "FindAllStringSubmatch alts [] = []"
  by (subst FindAllStringSubmatch.simps) simp

lemma FindAll_no_match:
  "(\<And>k. k < length s \<Longrightarrow> matchAlts alts (drop k s) = None) \<Longrightarrow> FindAllStringSubmatch alts s = []"
proof (induction alts s rule: FindAllStringSubmatch.induct)
  case (1 alts s)
  show ?case
  proof (cases "s = []")
    case True
    then show ?thesis by simp
  next
    case False
    then have m0: "matchAlts alts s = None" using "1.prems" [of 0] by simp
    have "FindAllStringSubmatch alts (tl s) = []"
    proof (rule "1.IH"(1) [OF False m0])
      fix k assume "k < length (tl s)"
      then have "Suc k < length s" using False by simp
      then show "matchAlts alts (drop k (tl s)) = None"
        using "1.prems" [of "Suc k"] by (simp add: drop_Suc)
    qed
    then show ?thesis using False m0 by (subst FindAllStringSubmatch.simps) simp
  qed
qed

text \<open>
  C5. For an expression in which no segment grammar matches at any position, the empty
  string among them, \<open>Query\<close> returns exactly the one-element sequence holding the
  document root.
\<close>

theorem Query_no_segment: "noSegment sel \<Longrightarrow> Query j sel = Inr [JObject j]"
proof -
  assume "noSegment sel"
  then have "FindAllStringSubmatch (map fst filterMapping) sel = []"
    by (intro FindAll_no_match) (simp add: noSegment_def list_all_iff)
  then show ?thesis by (simp add: Query_def QueryWith_def)
qed

theorem Query_no_segment_witness:
  "noSegment ''$[]. '' \<and> Query [(''a'', JNull)] ''$[]. '' = Inr [JObject [(''a'', JNull)]] \<and>
   noSegment [] \<and> Query [(''a'', JNull)] [] = Inr [JObject [(''a'', JNull)]]"
proof -
  have a: "noSegment ''$[]. ''"
    by (simp add: noSegment_def filterMapping_def descendingPattern_def attributePattern_def
        idxPattern_def upt_rec [of 0] List.map_filter_simps isWord_def)
  have b: "noSegment []" by (simp add: noSegment_def)
  show ?thesis
    using a b Query_no_segment [OF a, of "[(''a'', JNull)]"] Query_no_segment [OF b, of "[(''a'', JNull)]"]
    by simp
qed

subsection \<open>Typed accessors\<close>

text \<open>
  C7, as the code has it. Each single-value accessor looks at the first result of the
  query only: it returns that result with \<open>True\<close> when it has the accessor's type, and
  the zero value with \<open>False\<close> when the query has no result or the first one has another
  type, whatever follows it.
\<close>

theorem accessors_first_result:
  assumes "Query j sel = Inr results"
  shows "String j sel = Inr (case results of JString r # _ \<Rightarrow> (r, True) | _ \<Rightarrow> ([], False)) \<and>
         Bool j sel = Inr (case results of JBool r # _ \<Rightarrow> (r, True) | _ \<Rightarrow> (False, False)) \<and>
         Float j sel = Inr (case results of JNumber r # _ \<Rightarrow> (r, True) | _ \<Rightarrow> (0, False))"
  using assms by (simp add: String_def Bool_def Float_def split: list.splits json.splits)

theorem accessors_first_result_witness:
  "Query [(''a'', JArray [JNumber 1, JString ''x''])] ''$.a[*]'' = Inr [JNumber 1, JString ''x''] \<and>
   String [(''a'', JArray [JNumber 1, JString ''x''])] ''$.a[*]'' = Inr ([], False) \<and>
   Bool [(''a'', JArray [JNumber 1, JString ''x''])] ''$.a[*]'' = Inr (False, False) \<and>
   Float [(''a'', JArray [JNumber 1, JString ''x''])] ''$.a[*]'' = Inr (1, True)"
proof -
  have q: "Query [(''a'', JArray [JNumber 1, JString ''x''])] ''$.a[*]'' = Inr [JNumber 1, JString ''x'']"
    by code_simp
  show ?thesis using q accessors_first_result [OF q] by simp
qed

text \<open>
  C7 as stated fails: the query below has a string among its results, after a number,
  and yet \<open>String\<close> reports no match.
\<close>

theorem String_first_only_counterexample:
  "Query [(''a'', JArray [JNumber 1, JString ''x''])] ''$.a[*]'' = Inr [JNumber 1, JString ''x''] \<and>
   String [(''a'', JArray [JNumber 1, JString ''x''])] ''$.a[*]'' = Inr ([], False)"
  by code_simp

subsection \<open>Unmarshal\<close>

lemma unmarshalField_empty_result:
  assumes "canSet fld" "fieldTag fld \<noteq> []" "kindOf (fieldType fld) \<noteq> KSlice"
    and "Query d (Split (fieldTag fld) CHR '' '' ! 0) = Inr []"
  shows "unmarshalField d fld = Inl (Panicked IndexOutOfRange)"
  using assms by (simp add: unmarshalField_def Let_def del: Split.simps)

lemma unmarshalField_kind_mismatch:
  assumes "canSet fld" "fieldTag fld \<noteq> []" "kindOf (fieldType fld) \<noteq> KSlice"
    and "Query d (Split (fieldTag fld) CHR '' '' ! 0) = Inr (result # results)"
    and "typeOf result = Some V" "kindOf V \<noteq> kindOf (fieldType fld)"
  shows "unmarshalField d fld = Inl (Returned (Some (NotAssignable (fieldName fld) V (fieldType fld))))"
  using assms by (simp add: unmarshalField_def Let_def valueKind_def del: Split.simps)

lemma unmarshalField_nil_result:
  assumes "canSet fld" "fieldTag fld \<noteq> []" "kindOf (fieldType fld) \<noteq> KSlice"
    and "Query d (Split (fieldTag fld) CHR '' '' ! 0) = Inr (JNull # results)"
  shows "unmarshalField d fld = Inl (Panicked ReflectPanic)"
  using assms by (cases "fieldType fld") (simp_all add: unmarshalField_def Let_def valueKind_def del: Split.simps)

text \<open>
  C8. A settable string field tagged with a path that matches nothing ends the call in
  the panic of \<^verbatim>\<open>results[0]\<close>, not in an error; so does a field whose first result is
  \<^verbatim>\<open>nil\<close>, in the panic of \<^verbatim>\<open>Type\<close> on the zero \<^verbatim>\<open>Value\<close>. A first result of
  another kind than the field's gives the error that names the field and the two types.
\<close>

theorem unmarshal_empty_result_panics:
  "unmarshal [(''color'', JString ''red''), (''gears'', JNull)]
     (PtrToStruct [\<lparr>fieldName = ''Colour'', canSet = True, fieldTag = ''$.colour'',
                     fieldType = TString, fieldValue = JString []\<rparr>])
   = (Panicked IndexOutOfRange,
      PtrToStruct [\<lparr>fieldName = ''Colour'', canSet = True, fieldTag = ''$.colour'',
                     fieldType = TString, fieldValue = JString []\<rparr>]) \<and>
   unmarshal [(''color'', JString ''red''), (''gears'', JNull)]
     (PtrToStruct [\<lparr>fieldName = ''Gears'', canSet = True, fieldTag = ''$.gears'',
                     fieldType = TFloat64, fieldValue = JNumber 0\<rparr>])
   = (Panicked ReflectPanic,
      PtrToStruct [\<lparr>fieldName = ''Gears'', canSet = True, fieldTag = ''$.gears'',
                     fieldType = TFloat64, fieldValue = JNumber 0\<rparr>]) \<and>
   unmarshal [(''color'', JString ''red''), (''gears'', JNull)]
     (PtrToStruct [\<lparr>fieldName = ''Flag'', canSet = True, fieldTag = ''$.color'',
                     fieldType = TBool, fieldValue = JBool False\<rparr>])
   = (Returned (Some (NotAssignable ''Flag'' TString TBool)),
      PtrToStruct [\<lparr>fieldName = ''Flag'', canSet = True, fieldTag = ''$.color'',
                     fieldType = TBool, fieldValue = JBool False\<rparr>])"
  by code_simp

lemma unmarshalField_frame:
  "unmarshalField d fld = Inr fld' \<Longrightarrow>
     fld' = fld\<lparr>fieldValue := fieldValue fld'\<rparr> \<and>
     (\<not> canSet fld \<or> fieldTag fld = [] \<longrightarrow> fld' = fld)"
  by (auto simp: unmarshalField_def Let_def split: if_splits sum.splits list.splits option.splits)

lemma unmarshalFields_frame:
  "unmarshalFields d flds = (e, flds') \<Longrightarrow>
     length flds' = length flds \<and>
     (\<forall>i < length flds.
        flds' ! i = (flds ! i)\<lparr>fieldValue := fieldValue (flds' ! i)\<rparr> \<and>
        (\<not> canSet (flds ! i) \<or> fieldTag (flds ! i) = [] \<longrightarrow> flds' ! i = flds ! i))"
proof (induction flds arbitrary: e flds')
  case Nil
  then show ?case by simp
next
  case (Cons fld rest)
  show ?case
  proof (cases "unmarshalField d fld")
    case (Inl x)
    then show ?thesis using Cons.prems by auto
  next
    case (Inr fld1)
    obtain e1 rest1 where r: "unmarshalFields d rest = (e1, rest1)" by (cases "unmarshalFields d rest")
    from Cons.prems Inr r have eq: "flds' = fld1 # rest1" "e = e1" by auto
    note ih = Cons.IH [OF r]
    note f = unmarshalField_frame [OF Inr]
    show ?thesis
    proof (intro conjI allI impI)
      show "length flds' = length (fld # rest)" using ih eq by simp
    next
      fix i assume "i < length (fld # rest)"
      then show "flds' ! i = ((fld # rest) ! i)\<lparr>fieldValue := fieldValue (flds' ! i)\<rparr>"
        using ih f eq by (cases i) auto
    next
      fix i assume "i < length (fld # rest)" "\<not> canSet ((fld # rest) ! i) \<or> fieldTag ((fld # rest) ! i) = []"
      then show "flds' ! i = (fld # rest) ! i"
        using ih f eq by (cases i) auto
    qed
  qed
qed

text \<open>
  C10. However the call on a struct ends (\<^verbatim>\<open>nil\<close>, an error or a panic), the struct
  has the same fields, each with its name, settability, tag and type as before, and
  every field that cannot be set or has no \<^verbatim>\<open>jpath\<close> tag holds the value it held
  before: only settable fields with a tag are assigned.
\<close>

theorem unmarshal_frame:
  assumes "unmarshal d (PtrToStruct flds) = (e, t)"
  shows "\<exists>flds'. t = PtrToStruct flds' \<and> length flds' = length flds \<and>
           (\<forall>i < length flds.
              flds' ! i = (flds ! i)\<lparr>fieldValue := fieldValue (flds' ! i)\<rparr> \<and>
              (\<not> canSet (flds ! i) \<or> fieldTag (flds ! i) = [] \<longrightarrow> flds' ! i = flds ! i))"
proof -
  obtain e1 flds1 where r: "unmarshalFields d flds = (e1, flds1)" by (cases "unmarshalFields d flds")
  then have "t = PtrToStruct flds1" using assms by simp
  then show ?thesis using unmarshalFields_frame [OF r] by blast
qed

theorem unmarshal_frame_witness:
  "unmarshal [(''color'', JString ''red'')]
     (PtrToStruct
        [\<lparr>fieldName = ''hidden'', canSet = False, fieldTag = ''$.color'',
           fieldType = TString, fieldValue = JString ''old''\<rparr>,
         \<lparr>fieldName = ''Plain'', canSet = True, fieldTag = [],
           fieldType = TString, fieldValue = JString ''kept''\<rparr>,
         \<lparr>fieldName = ''Color'', canSet = True, fieldTag = ''$.color'',
           fieldType = TString, fieldValue = JString []\<rparr>])
   = (Returned None,
      PtrToStruct
        [\<lparr>fieldName = ''hidden'', canSet = False, fieldTag = ''$.color'',
           fieldType = TString, fieldValue = JString ''old''\<rparr>,
         \<lparr>fieldName = ''Plain'', canSet = True, fieldTag = [],
           fieldType = TString, fieldValue = JString ''kept''\<rparr>,
         \<lparr>fieldName = ''Color'', canSet = True, fieldTag = ''$.color'',
           fieldType = TString, fieldValue = JString ''red''\<rparr>])"
proof -
  have u: "unmarshal [(''color'', JString ''red'')]
     (PtrToStruct
        [\<lparr>fieldName = ''hidden'', canSet = False, fieldTag = ''$.color'',
           fieldType = TString, fieldValue = JString ''old''\<rparr>,
         \<lparr>fieldName = ''Plain'', canSet = True, fieldTag = [],
           fieldType = TString, fieldValue = JString ''kept''\<rparr>,
         \<lparr>fieldName = ''Color'', canSet = True, fieldTag = ''$.color'',
           fieldType = TString, fieldValue = JString []\<rparr>])
   = (Returned None,
      PtrToStruct
        [\<lparr>fieldName = ''hidden'', canSet = False, fieldTag = ''$.color'',
           fieldType = TString, fieldValue = JString ''old''\<rparr>,
         \<lparr>fieldName = ''Plain'', canSet = True, fieldTag = [],
           fieldType = TString, fieldValue = JString ''kept''\<rparr>,
         \<lparr>fieldName = ''Color'', canSet = True, fieldTag = ''$.color'',
           fieldType = TString, fieldValue = JString ''red''\<rparr>])"
    by code_simp
  show ?thesis using u unmarshal_frame [OF u] by simp
qed

subsection \<open>What the patterns match\<close>

lemma map_filter_append: "List.map_filter g (xs @ ys) = List.map_filter g xs @ List.map_filter g ys"
  by (simp add: List.map_filter_def)

lemma map_filter_all_None: "(\<And>x. x \<in> set xs \<Longrightarrow> g x = None) \<Longrightarrow> List.map_filter g xs = []"
  by (induction xs) (auto simp: List.map_filter_simps)

lemma rmatch_Plus_None:
  assumes "\<And>j. 1 \<le> j \<Longrightarrow> j \<le> length (takeWhile (accepts c) s) \<Longrightarrow> rmatch r (drop j s) = None"
  shows "rmatch ((c, Plus) # r) s = None"
proof -
  have "List.map_filter (\<lambda>j. map_option ((+) j) (rmatch r (drop j s)))
          (rev [1 ..< Suc (length (takeWhile (accepts c) s))]) = []"
    by (rule map_filter_all_None) (use assms in auto)
  then show ?thesis by simp
qed

lemma rmatch_Plus_greedy:
  assumes j: "1 \<le> j" "j \<le> length (takeWhile (accepts c) s)"
    and hit: "rmatch r (drop j s) = Some n"
    and later: "\<And>j'. j < j' \<Longrightarrow> j' \<le> length (takeWhile (accepts c) s) \<Longrightarrow> rmatch r (drop j' s) = None"
  shows "rmatch ((c, Plus) # r) s = Some (j + n)"
proof -
  let ?k = "length (takeWhile (accepts c) s)"
  let ?g = "\<lambda>j. map_option ((+) j) (rmatch r (drop j s))"
  have "[1 ..< j + (Suc ?k - j)] = [1 ..< j] @ [j ..< j + (Suc ?k - j)]"
    by (rule upt_add_eq_append) (use j in simp)
  moreover have "j + (Suc ?k - j) = Suc ?k" using j by simp
  ultimately have "[1 ..< Suc ?k] = [1 ..< j] @ [j ..< Suc ?k]" by simp
  also have "[j ..< Suc ?k] = j # [Suc j ..< Suc ?k]"
    using j by (simp add: upt_rec)
  finally have "rev [1 ..< Suc ?k] = rev [Suc j ..< Suc ?k] @ j # rev [1 ..< j]" by simp
  moreover have "List.map_filter ?g (rev [Suc j ..< Suc ?k]) = []"
    by (rule map_filter_all_None) (use later in auto)
  ultimately have "List.map_filter ?g (rev [1 ..< Suc ?k]) = (j + n) # List.map_filter ?g (rev [1 ..< j])"
    using hit by (simp add: map_filter_append List.map_filter_simps)
  then show ?thesis by simp
qed

lemma rmatch_Word_Plus:
  "rmatch [(Word, Plus)] s =
     (if takeWhile isWord s = [] then None else Some (length (takeWhile isWord s)))"
proof (cases "takeWhile isWord s = []")
  case True
  have "rmatch ((Word, Plus) # []) s = None"
    by (rule rmatch_Plus_None) (use True in \<open>simp add: accepts.simps [abs_def]\<close>)
  then show ?thesis using True by simp
next
  case False
  have w: "accepts Word = isWord" by (rule ext) simp
  have "rmatch ((Word, Plus) # []) s = Some (length (takeWhile isWord s) + 0)"
    by (rule rmatch_Plus_greedy) (use False in \<open>simp_all add: w Suc_le_eq\<close>)
  then show ?thesis using False by simp
qed

lemma rmatch_attributePattern:
  "rmatch attributePattern s =
     (case s of
        [] \<Rightarrow> None
      | c # t \<Rightarrow>
          if c = CHR ''.'' \<and> takeWhile isWord t \<noteq> [] then Some (1 + length (takeWhile isWord t))
          else None)"
  unfolding attributePattern_def
  by (cases s) (simp_all add: rmatch_Word_Plus del: rmatch.simps(3))

lemma rmatch_descendingPattern:
  "rmatch descendingPattern s =
     (case s of
        c # c' # t \<Rightarrow>
          if c = CHR ''.'' \<and> c' = CHR ''.'' \<and> takeWhile isWord t \<noteq> []
          then Some (2 + length (takeWhile isWord t))
          else None
      | _ \<Rightarrow> None)"
  unfolding descendingPattern_def
  by (cases s; cases "tl s") (auto simp add: rmatch_Word_Plus numeral_2_eq_2 simp del: rmatch.simps(3))

lemma rmatch_Lit1:
  "rmatch [(Lit c, Times 1)] s = (case s of [] \<Rightarrow> None | x # _ \<Rightarrow> if x = c then Some 1 else None)"
  by (cases s) simp_all

lemma rmatch_idxPattern_other:
  "s = [] \<or> hd s \<noteq> CHR ''['' \<Longrightarrow> rmatch idxPattern s = None"
  unfolding idxPattern_def by (cases s) (auto simp del: rmatch.simps(3))

lemma rmatch_idxPattern_last:
  assumes u: "u \<noteq> []" "CHR 0x0A \<notin> set u" and post: "CHR '']'' \<notin> set post"
  shows "rmatch idxPattern (CHR ''['' # u @ CHR '']'' # post) = Some (length u + 2)"
proof -
  let ?t = "u @ CHR '']'' # post"
  let ?r = "[(Lit CHR '']'', Times 1)]"
  have tw: "takeWhile (accepts AnyChar) ?t = u @ takeWhile (accepts AnyChar) (CHR '']'' # post)"
    by (rule takeWhile_append2) (use u in auto)
  have "rmatch ((AnyChar, Plus) # ?r) ?t = Some (length u + 1)"
  proof (rule rmatch_Plus_greedy)
    show "1 \<le> length u" using u by (simp add: Suc_le_eq)
    show "length u \<le> length (takeWhile (accepts AnyChar) ?t)" by (simp add: tw)
    show "rmatch ?r (drop (length u) ?t) = Some 1" by simp
  next
    fix j' assume j': "length u < j'"
    then obtain m where m: "j' = length u + Suc m" by (metis less_imp_Suc_add add_Suc_right)
    have "drop j' ?t = drop m post" by (simp add: m)
    moreover have "drop m post = [] \<or> hd (drop m post) \<noteq> CHR '']''"
      using post by (metis hd_in_set in_set_dropD)
    ultimately show "rmatch ?r (drop j' ?t) = None"
      by (cases "drop m post") (auto simp: rmatch_Lit1)
  qed
  then show ?thesis unfolding idxPattern_def by (simp del: rmatch.simps(3))
qed

lemma matchAlts_alts:
  "matchAlts (map fst filterMapping) s =
     (case rmatch descendingPattern s of
        Some n \<Rightarrow> Some (0, n)
      | None \<Rightarrow>
          (case rmatch attributePattern s of
             Some n \<Rightarrow> Some (1, n)
           | None \<Rightarrow> (case rmatch idxPattern s of Some n \<Rightarrow> Some (2, n) | None \<Rightarrow> None)))"
  by (simp add: filterMapping_def split: option.splits)

lemma not_isWord_bracket: "\<not> isWord CHR ''[''"
  by (simp add: isWord_def)

lemma rmatch_word_patterns_bracket:
  "rmatch descendingPattern (CHR ''['' # t) = None" "rmatch attributePattern (CHR ''['' # t) = None"
  by (simp_all add: rmatch_descendingPattern rmatch_attributePattern split: list.splits)

lemma matchAlts_bracket:
  assumes "u \<noteq> []" "CHR 0x0A \<notin> set u" "CHR '']'' \<notin> set post"
  shows "matchAlts (map fst filterMapping) (CHR ''['' # u @ CHR '']'' # post) = Some (2, length u + 2)"
  by (simp add: matchAlts_alts rmatch_word_patterns_bracket rmatch_idxPattern_last [OF assms])

text \<open>A word-pattern match inside a prefix that is followed by a bracket.\<close>

lemma matchAlts_prefix:
  assumes "CHR ''['' \<notin> set pre" "pre \<noteq> []"
  shows "matchAlts (map fst filterMapping) (pre @ CHR ''['' # rest) = matchAlts (map fst filterMapping) pre"
proof -
  have tw: "\<And>t. takeWhile isWord (t @ CHR ''['' # rest) = takeWhile isWord t"
    by (rule takeWhile_tail) (rule not_isWord_bracket)
  have i1: "rmatch idxPattern (pre @ CHR ''['' # rest) = None"
    by (rule rmatch_idxPattern_other) (use assms in \<open>cases pre; auto\<close>)
  have i2: "rmatch idxPattern pre = None"
    by (rule rmatch_idxPattern_other) (use assms in \<open>cases pre; auto\<close>)
  have a: "rmatch attributePattern (pre @ CHR ''['' # rest) = rmatch attributePattern pre"
    using assms by (cases pre) (simp_all add: rmatch_attributePattern tw)
  have d: "rmatch descendingPattern (pre @ CHR ''['' # rest) = rmatch descendingPattern pre"
  proof (cases pre)
    case Nil
    then show ?thesis using assms by simp
  next
    case (Cons c p)
    show ?thesis
    proof (cases p)
      case Nil
      then show ?thesis using Cons by (simp add: rmatch_descendingPattern)
    next
      case (Cons c' t)
      then show ?thesis using \<open>pre = c # p\<close> by (simp add: rmatch_descendingPattern tw)
    qed
  qed
  show ?thesis by (simp only: matchAlts_alts i1 i2 a d)
qed

lemma map_filter_hd:
  "List.map_filter g xs = y # ys \<Longrightarrow> \<exists>x \<in> set xs. g x = Some y"
  by (induction xs) (auto simp: List.map_filter_simps split: option.splits)

lemma rmatch_Plus_Some:
  assumes "rmatch ((c, Plus) # r) s = Some n"
  shows "\<exists>j m. 1 \<le> j \<and> j \<le> length (takeWhile (accepts c) s) \<and> rmatch r (drop j s) = Some m \<and> n = j + m"
proof -
  let ?g = "\<lambda>j. map_option ((+) j) (rmatch r (drop j s))"
  obtain ys where "List.map_filter ?g (rev [1 ..< Suc (length (takeWhile (accepts c) s))]) = n # ys"
    using assms by (auto split: list.splits)
  from map_filter_hd [OF this] obtain j where
    "j \<in> set (rev [1 ..< Suc (length (takeWhile (accepts c) s))])" "?g j = Some n" by blast
  then show ?thesis by auto
qed

lemma rmatch_le: "rmatch r s = Some n \<Longrightarrow> n \<le> length s"
proof (induction r s arbitrary: n rule: rmatch.induct)
  case (1 s)
  then show ?case by simp
next
  case (2 c k r s)
  then show ?case by (fastforce split: if_splits)
next
  case (3 c r s)
  from rmatch_Plus_Some [OF "3.prems"] obtain j m where
    jm: "1 \<le> j" "j \<le> length (takeWhile (accepts c) s)" "rmatch r (drop j s) = Some m" "n = j + m"
    by blast
  from "3.IH" [OF jm(3)] have "m \<le> length s - j" by simp
  moreover have "j \<le> length s" using jm(2) length_takeWhile_le [of "accepts c" s] by simp
  ultimately show ?case using jm(4) by simp
qed

lemma rmatch_idxPattern_ge: "rmatch idxPattern s = Some n \<Longrightarrow> 2 \<le> n"
proof -
  assume a: "rmatch idxPattern s = Some n"
  then obtain k where k: "rmatch [(AnyChar, Plus), (Lit CHR '']'', Times 1)] (drop 1 s) = Some k" "n = 1 + k"
    unfolding idxPattern_def by (auto simp del: rmatch.simps(3) split: if_splits)
  from rmatch_Plus_Some [OF k(1)] have "1 \<le> k" by auto
  then show ?thesis using k(2) by simp
qed

lemma matchAlts_len:
  assumes "matchAlts (map fst filterMapping) s = Some (i, n)"
  shows "i < 3 \<and> 2 \<le> n \<and> n \<le> length s"
proof -
  have tw: "\<And>t. length (takeWhile isWord t) \<le> length t" by (rule length_takeWhile_le)
  have d: "\<And>n. rmatch descendingPattern s = Some n \<Longrightarrow> 2 \<le> n \<and> n \<le> length s"
    using tw by (auto simp: rmatch_descendingPattern split: list.splits if_splits)
  have a: "\<And>n. rmatch attributePattern s = Some n \<Longrightarrow> 2 \<le> n \<and> n \<le> length s"
    using tw by (auto simp: rmatch_attributePattern Suc_le_eq split: list.splits if_splits)
  have x: "\<And>n. rmatch idxPattern s = Some n \<Longrightarrow> 2 \<le> n \<and> n \<le> length s"
    using rmatch_idxPattern_ge rmatch_le by blast
  show ?thesis
    using assms d a x by (auto simp: matchAlts_alts split: option.splits)
qed

subsection \<open>Specs that hold a bracket\<close>

lemma Atoi_chars:
  assumes "Atoi s = Some i" "c \<in> set s"
  shows "isDigit c \<or> c = CHR ''-'' \<or> c = CHR ''+''"
proof (cases s)
  case Nil
  then show ?thesis using assms by simp
next
  case (Cons x r)
  then show ?thesis
    using assms by (auto simp: Atoi_def Let_def list_all_iff split: if_splits)
qed

lemma Atoi_bracket: "CHR '']'' \<in> set s \<Longrightarrow> Atoi s = None"
proof (rule ccontr)
  assume b: "CHR '']'' \<in> set s" and "Atoi s \<noteq> None"
  then obtain i where "Atoi s = Some i" by auto
  from Atoi_chars [OF this b] show False by (simp add: isDigit_def)
qed

lemma Split_hd: "\<exists>ps. Split s sep = takeWhile (\<lambda>c. c \<noteq> sep) s # ps"
  by (induction s) (auto split: list.splits)

lemma Split_at_sep: "sep \<notin> set x \<Longrightarrow> Split (x @ sep # y) sep = x # Split y sep"
  by (induction x) (auto split: list.splits)

lemma Split_first: "Split s sep ! 0 = takeWhile (\<lambda>c. c \<noteq> sep) s"
  using Split_hd [of s sep] by auto

lemma Split_first_mem:
  assumes "sep \<notin> set a" "c \<noteq> sep"
  shows "c \<in> set (Split (a @ c # rest) sep ! 0)"
proof -
  have "takeWhile (\<lambda>c. c \<noteq> sep) (a @ c # rest) = a @ takeWhile (\<lambda>c. c \<noteq> sep) (c # rest)"
    by (rule takeWhile_append2) (use assms in auto)
  then show ?thesis using assms by (simp add: Split_first)
qed

lemma sliceBound_bracket: "CHR '']'' \<in> set piece \<Longrightarrow> sliceBound piece dflt slice = None"
  by (auto simp: sliceBound_def Atoi_bracket)

lemma one_colon_cases:
  assumes "length (filter (\<lambda>c. c = CHR '':'') a) \<le> 1"
  shows "CHR '':'' \<notin> set a \<or> (\<exists>a0 a1. a = a0 @ CHR '':'' # a1 \<and> CHR '':'' \<notin> set a0 \<and> CHR '':'' \<notin> set a1)"
proof (cases "CHR '':'' \<in> set a")
  case False
  then show ?thesis by simp
next
  case True
  then obtain a0 a1 where s: "a = a0 @ CHR '':'' # a1" "CHR '':'' \<notin> set a0"
    by (meson split_list_first)
  then have "filter (\<lambda>c. c = CHR '':'') a1 = []" using assms by simp
  then have "CHR '':'' \<notin> set a1" by (auto simp: filter_empty_conv)
  then show ?thesis using s by blast
qed

lemma idxFilter_merged:
  assumes "length (filter (\<lambda>c. c = CHR '':'') a) \<le> 1"
  shows "idxFilter (CHR ''['' # a @ '']['' @ b @ '']'') v = Inr []"
proof (cases v)
  case (JArray slice)
  let ?f = "a @ '']['' @ b"
  have strip: "take (length (CHR ''['' # a @ '']['' @ b @ '']'') - 2)
                 (drop 1 (CHR ''['' # a @ '']['' @ b @ '']'')) = ?f"
    by simp
  have ns: "?f \<noteq> ''*''" by (cases a) auto
  have at: "Atoi ?f = None" by (rule Atoi_bracket) simp
  have body: "idxFilter (CHR ''['' # a @ '']['' @ b @ '']'') v =
      (case sliceBound (Split ?f CHR '':'' ! 0) 0 slice of
         None \<Rightarrow> Inr []
       | Some start \<Rightarrow>
           if length (Split ?f CHR '':'') < 2 then Inl IndexOutOfRange
           else (case sliceBound (Split ?f CHR '':'' ! 1) (int (length slice)) slice of
                   None \<Rightarrow> Inr []
                 | Some end \<Rightarrow> goSlice slice start end))"
  proof -
    obtain ps where "Split ?f CHR '':'' = takeWhile (\<lambda>c. c \<noteq> CHR '':'') ?f # ps"
      using Split_hd by blast
    then have "0 < length (Split ?f CHR '':'')" by simp
    then show ?thesis
      unfolding idxFilter_def strip Let_def using ns at JArray
      by (simp del: Split.simps)
  qed
  from one_colon_cases [OF assms] show ?thesis
  proof
    assume nc: "CHR '':'' \<notin> set a"
    have "CHR '']'' \<in> set (Split (a @ CHR '']'' # (CHR ''['' # b)) CHR '':'' ! 0)"
      by (rule Split_first_mem [OF nc]) simp
    then have "sliceBound (Split ?f CHR '':'' ! 0) 0 slice = None"
      by (simp add: sliceBound_bracket)
    then show ?thesis unfolding body by simp
  next
    assume "\<exists>a0 a1. a = a0 @ CHR '':'' # a1 \<and> CHR '':'' \<notin> set a0 \<and> CHR '':'' \<notin> set a1"
    then obtain a0 a1 where a: "a = a0 @ CHR '':'' # a1" "CHR '':'' \<notin> set a0" "CHR '':'' \<notin> set a1"
      by blast
    have sp: "Split (a @ CHR '']'' # CHR ''['' # b) CHR '':'' =
                a0 # Split (a1 @ CHR '']'' # CHR ''['' # b) CHR '':''"
      using Split_at_sep [OF a(2), of "a1 @ CHR '']'' # CHR ''['' # b"] by (simp add: a(1))
    have "CHR '']'' \<in> set (Split (a1 @ CHR '']'' # (CHR ''['' # b)) CHR '':'' ! 0)"
      by (rule Split_first_mem [OF a(3)]) simp
    then have "CHR '']'' \<in> set (Split ?f CHR '':'' ! 1)" by (simp add: sp)
    then have e: "sliceBound (Split ?f CHR '':'' ! 1) (int (length slice)) slice = None"
      by (rule sliceBound_bracket)
    obtain ps where "Split (a1 @ CHR '']'' # CHR ''['' # b) CHR '':'' =
        takeWhile (\<lambda>c. c \<noteq> CHR '':'') (a1 @ CHR '']'' # CHR ''['' # b) # ps"
      using Split_hd by blast
    then have l: "\<not> length (Split (a @ CHR '']'' # CHR ''['' # b) CHR '':'') < 2"
      by (simp add: sp)
    show ?thesis unfolding body e using l by (simp split: option.splits)
  qed
qed (simp_all add: idxFilter_def)

subsection \<open>Segments of an expression with adjacent brackets\<close>

lemma length_alts: "length (map fst filterMapping) = 3"
  by (simp add: filterMapping_def)

lemma FindAll_None:
  "s \<noteq> [] \<Longrightarrow> matchAlts A s = None \<Longrightarrow> FindAllStringSubmatch A s = FindAllStringSubmatch A (tl s)"
  by (subst FindAllStringSubmatch.simps) simp

lemma FindAll_Some:
  "s \<noteq> [] \<Longrightarrow> matchAlts A s = Some (i, n) \<Longrightarrow>
     FindAllStringSubmatch A s =
       submatches (length A) i (take n s) # FindAllStringSubmatch A (drop (max 1 n) s)"
  by (subst FindAllStringSubmatch.simps) simp

lemma FindAll_prefix:
  "CHR ''['' \<notin> set pre \<Longrightarrow>
     FindAllStringSubmatch (map fst filterMapping) (pre @ CHR ''['' # rest) =
       FindAllStringSubmatch (map fst filterMapping) pre
         @ FindAllStringSubmatch (map fst filterMapping) (CHR ''['' # rest)"
proof (induction pre rule: length_induct)
  case (1 pre)
  let ?A = "map fst filterMapping"
  show ?case
  proof (cases "pre = []")
    case True
    then show ?thesis by simp
  next
    case False
    note m = matchAlts_prefix [OF "1.prems" False, of rest]
    have ne: "pre @ CHR ''['' # rest \<noteq> []" by simp
    show ?thesis
    proof (cases "matchAlts ?A pre")
      case None
      have t: "CHR ''['' \<notin> set (tl pre)" "length (tl pre) < length pre"
        using "1.prems" False by (auto dest: list.set_sel(2))
      have "FindAllStringSubmatch ?A (pre @ CHR ''['' # rest) =
              FindAllStringSubmatch ?A (tl pre @ CHR ''['' # rest)"
        using FindAll_None [OF ne] m None False by simp
      also have "\<dots> = FindAllStringSubmatch ?A (tl pre) @ FindAllStringSubmatch ?A (CHR ''['' # rest)"
        using "1.IH" t by blast
      also have "FindAllStringSubmatch ?A (tl pre) = FindAllStringSubmatch ?A pre"
        using FindAll_None [OF False None] by simp
      finally show ?thesis .
    next
      case (Some p)
      obtain i n where p: "p = (i, n)" by (cases p)
      from matchAlts_len [of pre i n] Some p have n: "2 \<le> n" "n \<le> length pre" by auto
      have d: "CHR ''['' \<notin> set (drop n pre)" "length (drop n pre) < length pre"
        using "1.prems" False n by (auto dest: in_set_dropD)
      have mx: "max 1 n = n" "max (Suc 0) n = n" using n by simp_all
      have "FindAllStringSubmatch ?A (pre @ CHR ''['' # rest) =
              submatches (length ?A) i (take n pre)
                # FindAllStringSubmatch ?A (drop n pre @ CHR ''['' # rest)"
        using FindAll_Some [OF ne, of ?A i n] m Some p n by (simp add: mx)
      also have "FindAllStringSubmatch ?A (drop n pre @ CHR ''['' # rest) =
              FindAllStringSubmatch ?A (drop n pre) @ FindAllStringSubmatch ?A (CHR ''['' # rest)"
        using "1.IH" d by blast
      finally show ?thesis
        using FindAll_Some [OF False, of ?A i n] Some p by (simp add: mx)
    qed
  qed
qed

lemma FindAll_bracket:
  assumes "u \<noteq> []" "CHR 0x0A \<notin> set u" "CHR '']'' \<notin> set post"
  shows "FindAllStringSubmatch (map fst filterMapping) (CHR ''['' # u @ CHR '']'' # post) =
           submatches 3 2 (CHR ''['' # u @ '']'')
             # FindAllStringSubmatch (map fst filterMapping) post"
proof -
  have "FindAllStringSubmatch (map fst filterMapping) (CHR ''['' # u @ CHR '']'' # post) =
          submatches (length (map fst filterMapping)) 2 (take (length u + 2) (CHR ''['' # u @ CHR '']'' # post))
            # FindAllStringSubmatch (map fst filterMapping)
                (drop (max 1 (length u + 2)) (CHR ''['' # u @ CHR '']'' # post))"
    by (rule FindAll_Some) (simp_all add: matchAlts_bracket [OF assms])
  moreover have "take (length u + 2) (CHR ''['' # u @ CHR '']'' # post) = CHR ''['' # u @ '']''"
    by simp
  moreover have "drop (max 1 (length u + 2)) (CHR ''['' # u @ CHR '']'' # post) = post"
    by simp
  ultimately show ?thesis by (simp only: length_alts)
qed

lemma querySegments_append:
  "querySegments F objs (xs @ ys) =
     (case querySegments F objs xs of Inl e \<Rightarrow> Inl e | Inr objs' \<Rightarrow> querySegments F objs' ys)"
  by (induction xs arbitrary: objs) (auto split: sum.splits)

lemma filterFor_submatches:
  assumes "i < 3" "t \<noteq> []"
  shows "filterForSegmentResults (map snd filterMapping) (drop 1 (submatches 3 i t)) =
           Inr (Some (map snd filterMapping ! i), t)"
proof -
  have u: "[0 ..< 3] = [0, 1, 2::nat]" by code_simp
  have "i = 0 \<or> i = 1 \<or> i = 2" using assms by auto
  then show ?thesis
    using assms(2)
    by (auto simp: submatches_def u filterForSegmentResults_def filterMapping_def)
qed

lemma querySegments_step:
  assumes "i < 3" "t \<noteq> []"
  shows "querySegments (map snd filterMapping) objs (submatches 3 i t # segs) =
           (case appendAll ((map snd filterMapping ! i) t) objs of
              Inl e \<Rightarrow> Inl e
            | Inr tempObjs \<Rightarrow> querySegments (map snd filterMapping) tempObjs segs)"
proof -
  have "\<not> length (submatches 3 i t) < 1" by (simp add: submatches_def)
  moreover have "callFilter (Some (map snd filterMapping ! i)) t = (map snd filterMapping ! i) t"
    by (rule ext) (simp add: callFilter_def)
  ultimately show ?thesis
    by (simp only: querySegments.simps filterFor_submatches [OF assms] if_False sum.case prod.case)
qed

lemma querySegments_empty:
  "querySegments (map snd filterMapping) [] (FindAllStringSubmatch (map fst filterMapping) s) = Inr []"
proof (induction s rule: length_induct)
  case (1 s)
  let ?A = "map fst filterMapping"
  show ?case
  proof (cases "s = []")
    case True
    then show ?thesis by simp
  next
    case False
    show ?thesis
    proof (cases "matchAlts ?A s")
      case None
      have "length (tl s) < length s" using False by simp
      then show ?thesis using "1.IH" FindAll_None [OF False None] by simp
    next
      case (Some p)
      obtain i n where p: "p = (i, n)" by (cases p)
      from matchAlts_len [of s i n] Some p have n: "i < 3" "2 \<le> n" "n \<le> length s" by auto
      have t: "take n s \<noteq> []" using n False by simp
      have "length (drop (max 1 n) s) < length s" using n False by simp
      then have ih: "querySegments (map snd filterMapping) []
          (FindAllStringSubmatch ?A (drop (max 1 n) s)) = Inr []"
        using "1.IH" by blast
      have "FindAllStringSubmatch ?A s =
              submatches 3 i (take n s) # FindAllStringSubmatch ?A (drop (max 1 n) s)"
        using FindAll_Some [OF False, of ?A i n] Some p by (simp only: length_alts)
      then show ?thesis
        by (simp only: querySegments_step [OF n(1) t] appendAll.simps sum.case ih)
    qed
  qed
qed

lemma appendAll_total:
  "(\<And>x. \<exists>ys. g x = Inr ys) \<Longrightarrow> \<exists>zs. appendAll g xs = Inr zs"
proof (induction xs)
  case Nil
  then show ?case by simp
next
  case (Cons x xs)
  then obtain ys zs where "g x = Inr ys" "appendAll g xs = Inr zs" by metis
  then show ?case by simp
qed

lemma appendAll_empty: "(\<And>x. g x = Inr []) \<Longrightarrow> appendAll g xs = Inr []"
  by (induction xs) auto

lemma attributeFilter_total: "f \<noteq> [] \<Longrightarrow> \<exists>ys. attributeFilter f v = Inr ys"
  by (cases v) (auto split: option.splits)

lemma word_filters_total:
  assumes "i < 2" "2 \<le> length t"
  shows "\<exists>zs. appendAll ((map snd filterMapping ! i) t) objs = Inr zs"
proof (rule appendAll_total)
  fix x
  have "i = 0 \<or> i = 1" using assms by auto
  then show "\<exists>ys. (map snd filterMapping ! i) t x = Inr ys"
  proof
    assume "i = 0"
    then show ?thesis using descendingAttributeFilter_spec [OF assms(2)] by (simp add: filterMapping_def)
  next
    assume "i = 1"
    moreover have "t \<noteq> []" using assms by auto
    ultimately show ?thesis using attributeFilter_total [of t x] by (simp add: filterMapping_def)
  qed
qed

lemma querySegments_prefix_total:
  "CHR ''['' \<notin> set pre \<Longrightarrow>
     \<exists>objs'. querySegments (map snd filterMapping) objs
               (FindAllStringSubmatch (map fst filterMapping) pre) = Inr objs'"
proof (induction pre arbitrary: objs rule: length_induct)
  case (1 pre)
  let ?A = "map fst filterMapping"
  let ?F = "map snd filterMapping"
  show ?case
  proof (cases "pre = []")
    case True
    then show ?thesis by simp
  next
    case False
    show ?thesis
    proof (cases "matchAlts ?A pre")
      case None
      have "CHR ''['' \<notin> set (tl pre)" "length (tl pre) < length pre"
        using "1.prems" False by (auto dest: list.set_sel(2))
      then show ?thesis using "1.IH" FindAll_None [OF False None] by simp
    next
      case (Some p)
      obtain i n where p: "p = (i, n)" by (cases p)
      from matchAlts_len [of pre i n] Some p have n: "i < 3" "2 \<le> n" "n \<le> length pre" by auto
      have "rmatch idxPattern pre = None"
        by (rule rmatch_idxPattern_other) (use "1.prems" False in \<open>cases pre; auto\<close>)
      then have i: "i < 2"
        using Some p by (auto simp: matchAlts_alts split: option.splits)
      have t: "take n pre \<noteq> []" "2 \<le> length (take n pre)" using n False by auto
      have d: "CHR ''['' \<notin> set (drop (max 1 n) pre)" "length (drop (max 1 n) pre) < length pre"
        using "1.prems" False n by (auto dest: in_set_dropD)
      obtain zs where zs: "appendAll ((?F ! i) (take n pre)) objs = Inr zs"
        using word_filters_total [OF i t(2)] by blast
      obtain objs' where o: "querySegments ?F zs (FindAllStringSubmatch ?A (drop (max 1 n) pre)) = Inr objs'"
        using "1.IH" d by blast
      have "FindAllStringSubmatch ?A pre =
              submatches 3 i (take n pre) # FindAllStringSubmatch ?A (drop (max 1 n) pre)"
        using FindAll_Some [OF False, of ?A i n] Some p by (simp only: length_alts)
      then show ?thesis
        by (simp only: querySegments_step [OF n(1) t(1)] zs sum.case o) blast
    qed
  qed
qed


text \<open>
  C9. In an expression \<open>pre[a][b]post\<close> whose first bracket is the first of the
  expression, with no closing bracket after the second pair, and with at most one colon
  in \<open>a\<close> (as every well-formed spec has), the greedy pattern takes \<open>[a][b]\<close> as one
  index segment with the spec \<open>a][b\<close>; no array answers that spec, so the query returns
  the empty sequence, whatever the document holds.
\<close>

theorem Query_adjacent_brackets:
  assumes pre: "CHR ''['' \<notin> set pre"
    and nl: "CHR 0x0A \<notin> set a" "CHR 0x0A \<notin> set b"
    and colon: "length (filter (\<lambda>c. c = CHR '':'') a) \<le> 1"
    and post: "CHR '']'' \<notin> set post"
  shows "FindAllStringSubmatch (map fst filterMapping) (pre @ ''['' @ a @ '']['' @ b @ '']'' @ post) =
           FindAllStringSubmatch (map fst filterMapping) pre
             @ submatches 3 2 (''['' @ a @ '']['' @ b @ '']'')
             # FindAllStringSubmatch (map fst filterMapping) post \<and>
         Query j (pre @ ''['' @ a @ '']['' @ b @ '']'' @ post) = Inr []"
proof -
  let ?A = "map fst filterMapping"
  let ?F = "map snd filterMapping"
  let ?u = "a @ '']['' @ b"
  let ?seg = "CHR ''['' # ?u @ '']''"
  have u: "?u \<noteq> []" "CHR 0x0A \<notin> set ?u" using nl by auto
  have sel: "pre @ ''['' @ a @ '']['' @ b @ '']'' @ post = pre @ CHR ''['' # (?u @ CHR '']'' # post)"
    by simp
  have segs: "FindAllStringSubmatch ?A (pre @ CHR ''['' # (?u @ CHR '']'' # post)) =
                FindAllStringSubmatch ?A pre @ submatches 3 2 ?seg # FindAllStringSubmatch ?A post"
    by (simp only: FindAll_prefix [OF pre] FindAll_bracket [OF u post])
  obtain objs where objs: "querySegments ?F [JObject j] (FindAllStringSubmatch ?A pre) = Inr objs"
    using querySegments_prefix_total [OF pre] by blast
  have idx: "appendAll ((?F ! 2) ?seg) objs = Inr []"
  proof (rule appendAll_empty)
    fix x
    have "idxFilter (CHR ''['' # a @ '']['' @ b @ '']'') x = Inr []"
      by (rule idxFilter_merged [OF colon])
    then show "(?F ! 2) ?seg x = Inr []" by (simp add: filterMapping_def)
  qed
  have st: "querySegments ?F objs (submatches 3 2 ?seg # FindAllStringSubmatch ?A post) =
              (case appendAll ((?F ! 2) ?seg) objs of
                 Inl e \<Rightarrow> Inl e
               | Inr tempObjs \<Rightarrow> querySegments ?F tempObjs (FindAllStringSubmatch ?A post))"
    by (rule querySegments_step) simp_all
  have "querySegments ?F [JObject j]
          (FindAllStringSubmatch ?A pre @ submatches 3 2 ?seg # FindAllStringSubmatch ?A post) = Inr []"
    by (simp only: querySegments_append objs sum.case st idx querySegments_empty)
  then have "Query j (pre @ CHR ''['' # (?u @ CHR '']'' # post)) = Inr []"
    by (simp only: Query_def QueryWith_def Let_def segs)
  then show ?thesis using segs by (simp only: sel) simp
qed

theorem Query_adjacent_brackets_witness:
  "CHR ''['' \<notin> set ''$.a'' \<and> CHR 0x0A \<notin> set ''0'' \<and> CHR 0x0A \<notin> set ''1'' \<and>
   length (filter (\<lambda>c. c = CHR '':'') ''0'') \<le> 1 \<and> CHR '']'' \<notin> set ''.b'' \<and>
   FindAllStringSubmatch (map fst filterMapping) ''$.a[0][1].b'' =
     [[''.a'', [], ''.a'', []], [''[0][1]'', [], [], ''[0][1]''], [''.b'', [], ''.b'', []]] \<and>
   Query [(''a'', JArray [JArray [JObject [(''b'', JNumber 1)], JObject [(''b'', JNumber 2)]]])]
     ''$.a[0][1].b'' = Inr [] \<and>
   idxFilter ''[0]'' (JArray [JArray [JObject [(''b'', JNumber 1)], JObject [(''b'', JNumber 2)]]])
     = Inr [JArray [JObject [(''b'', JNumber 1)], JObject [(''b'', JNumber 2)]]] \<and>
   idxFilter ''[1]'' (JArray [JObject [(''b'', JNumber 1)], JObject [(''b'', JNumber 2)]])
     = Inr [JObject [(''b'', JNumber 2)]]"
proof -
  have h: "CHR ''['' \<notin> set ''$.a''" "CHR 0x0A \<notin> set ''0''" "CHR 0x0A \<notin> set ''1''"
    "length (filter (\<lambda>c. c = CHR '':'') ''0'') \<le> 1" "CHR '']'' \<notin> set ''.b''"
    by simp_all
  have e: "FindAllStringSubmatch (map fst filterMapping) ''$.a'' = [[''.a'', [], ''.a'', []]]"
    "FindAllStringSubmatch (map fst filterMapping) ''.b'' = [[''.b'', [], ''.b'', []]]"
    "submatches 3 2 ''[0][1]'' = [''[0][1]'', [], [], ''[0][1]'']"
    "idxFilter ''[0]'' (JArray [JArray [JObject [(''b'', JNumber 1)], JObject [(''b'', JNumber 2)]]])
     = Inr [JArray [JObject [(''b'', JNumber 1)], JObject [(''b'', JNumber 2)]]]"
    "idxFilter ''[1]'' (JArray [JObject [(''b'', JNumber 1)], JObject [(''b'', JNumber 2)]])
     = Inr [JObject [(''b'', JNumber 2)]]"
    by code_simp+
  show ?thesis
    using h e Query_adjacent_brackets [OF h,
        of "[(''a'', JArray [JArray [JObject [(''b'', JNumber 1)], JObject [(''b'', JNumber 2)]]])]"]
    by simp
qed

subsection \<open>Two runs over one document\<close>

lemma rel_mset_union:
  "rel_mset R A C \<Longrightarrow> rel_mset R B D \<Longrightarrow> rel_mset R (A + B) (C + D)"
  by (induction rule: rel_mset_induct) (auto intro: rel_mset_Plus)

lemma rel_mset_of_list_all2: "list_all2 R xs ys \<Longrightarrow> rel_mset R (mset xs) (mset ys)"
  unfolding rel_mset_def by blast

lemma rel_mset_concat:
  "list_all2 (\<lambda>x y. rel_mset R (mset (g x)) (mset (h y))) xs ys \<Longrightarrow>
     rel_mset R (mset (concat (map g xs))) (mset (concat (map h ys)))"
  by (induction rule: list_all2_induct) (auto simp: rel_mset_Zero intro: rel_mset_union)

lemma mset_concat_perm:
  assumes "mset xs = mset ys"
  shows "mset (concat (map g xs)) = mset (concat (map g ys))"
proof -
  have "mset (concat (map g xs)) = sum_mset (image_mset (\<lambda>x. mset (g x)) (mset xs))"
    by (simp add: mset_concat sum_mset_sum_list [symmetric] comp_def)
  also have "\<dots> = sum_mset (image_mset (\<lambda>x. mset (g x)) (mset ys))" by (simp add: assms)
  also have "\<dots> = mset (concat (map g ys))"
    by (simp add: mset_concat sum_mset_sum_list [symmetric] comp_def)
  finally show ?thesis .
qed

lemma map_of_entries:
  "list_all2 (\<lambda>kv kv'. fst kv = fst kv' \<and> Q (snd kv) (snd kv')) m m' \<Longrightarrow>
     rel_option Q (map_of m k) (map_of m' k)"
  by (induction rule: list_all2_induct) auto

lemma entries_keys:
  "list_all2 (\<lambda>kv kv'. fst kv = fst kv' \<and> Q (snd kv) (snd kv')) m m' \<Longrightarrow> map fst m = map fst m'"
  by (induction rule: list_all2_induct) auto

lemma map_of_perm:
  assumes "distinct (map fst m')" "mset m'' = mset m'"
  shows "map_of m'' = map_of m'"
proof -
  have "mset (map fst m'') = mset (map fst m')" using assms(2) by simp
  then have "distinct (map fst m'')" using assms(1) by (metis mset_eq_imp_distinct_iff)
  moreover have "set m'' = set m'" using assms(2) by (rule mset_eq_setD)
  ultimately show ?thesis using assms(1) by (simp add: map_of_inject_set)
qed

lemma reordered_lookup:
  assumes "list_all2 (\<lambda>kv kv'. fst kv = fst kv' \<and> reordered (snd kv) (snd kv')) m m'"
    and "distinct (map fst m)" "mset m'' = mset m'"
  shows "rel_option reordered (map_of m k) (map_of m'' k)"
proof -
  have "distinct (map fst m')" using entries_keys [OF assms(1)] assms(2) by simp
  then have "map_of m'' = map_of m'" using assms(3) by (rule map_of_perm)
  then show ?thesis using map_of_entries [OF assms(1), of k] by simp
qed

lemma descendantSpec_reordered:
  "reordered v v' \<Longrightarrow> rel_mset reordered (mset (descendantSpec k v)) (mset (descendantSpec k v'))"
proof (induction rule: reordered.induct)
  case (Array xs ys)
  have "list_all2 (\<lambda>x y. rel_mset reordered (mset (descendantSpec k x)) (mset (descendantSpec k y))) xs ys"
    using Array by (rule list_all2_mono) simp
  then show ?case using rel_mset_concat [of reordered "descendantSpec k" "descendantSpec k"] by simp
next
  case (Object m m' m'')
  have e: "list_all2 (\<lambda>kv kv'. fst kv = fst kv' \<and> reordered (snd kv) (snd kv')) m m'"
    using Object(1) by (rule list_all2_mono) simp
  note lk = reordered_lookup [OF e Object(2,3), of k]
  show ?case
  proof (cases "map_of m k")
    case None
    then have n: "map_of m'' k = None" using lk by simp
    have "list_all2 (\<lambda>x y. rel_mset reordered (mset (descendantSpec k (snd x))) (mset (descendantSpec k (snd y)))) m m'"
      using Object(1) by (rule list_all2_mono) simp
    then have "rel_mset reordered (mset (concat (map (\<lambda>kv. descendantSpec k (snd kv)) m)))
                 (mset (concat (map (\<lambda>kv. descendantSpec k (snd kv)) m')))"
      by (rule rel_mset_concat)
    moreover have "mset (concat (map (\<lambda>kv. descendantSpec k (snd kv)) m'')) =
                   mset (concat (map (\<lambda>kv. descendantSpec k (snd kv)) m'))"
      by (rule mset_concat_perm [OF Object(3)])
    ultimately show ?thesis using None n by simp
  next
    case (Some c)
    then obtain c' where "map_of m'' k = Some c'" "reordered c c'"
      using lk by (auto simp: option_rel_Some1)
    then show ?thesis using Some by (simp add: rel_mset_Plus rel_mset_Zero)
  qed
qed (simp_all add: rel_mset_Zero)

lemma sameOutcome_Inr [simp]:
  "sameOutcome (Inr rs) (Inr rs') = rel_mset reordered (mset rs) (mset rs')"
  by (simp add: sameOutcome_def)

lemma sameOutcome_Inl [simp]: "sameOutcome (Inl e) (Inl e') = (e = e')"
  by (simp add: sameOutcome_def)

lemma sameOutcome_mixed [simp]: "\<not> sameOutcome (Inl e) (Inr rs)" "\<not> sameOutcome (Inr rs) (Inl e)"
  by (simp_all add: sameOutcome_def)

lemma attributeFilter_reordered:
  assumes "reordered v v'"
  shows "sameOutcome (attributeFilter f v) (attributeFilter f v')"
  using assms
proof cases
  case (Object m m' m'')
  from reordered_lookup [OF Object(3,4,5), of "drop 1 f"]
  show ?thesis
    unfolding Object(1,2)
    by (cases "map_of m (drop 1 f)"; cases "map_of m'' (drop 1 f)")
       (simp_all add: rel_mset_Zero rel_mset_Plus)
qed (simp_all add: rel_mset_Zero)

lemma goSlice_reordered:
  assumes "list_all2 reordered xs ys"
  shows "sameOutcome (goSlice xs lo hi) (goSlice ys lo hi)"
proof -
  have l: "length xs = length ys" using assms by (rule list_all2_lengthD)
  have "list_all2 reordered (take (nat hi - nat lo) (drop (nat lo) xs)) (take (nat hi - nat lo) (drop (nat lo) ys))"
    using assms by (intro list_all2_takeI list_all2_dropI)
  then show ?thesis by (simp add: goSlice_def l rel_mset_of_list_all2)
qed

lemma outOfRange_length: "length xs = length ys \<Longrightarrow> outOfRange i xs = outOfRange i ys"
  by (simp add: outOfRange_def)

lemma sliceBound_length: "length xs = length ys \<Longrightarrow> sliceBound p d xs = sliceBound p d ys"
  by (simp add: sliceBound_def outOfRange_def split: option.splits)

lemma idxFilter_reordered:
  assumes "reordered v v'"
  shows "sameOutcome (idxFilter f v) (idxFilter f v')"
  using assms
proof cases
  case (Array xs ys)
  have l: "length xs = length ys" using Array(3) by (rule list_all2_lengthD)
  note o = outOfRange_length [OF l] and b = sliceBound_length [OF l]
  note g = goSlice_reordered [OF Array(3)]
  show ?thesis
    unfolding Array(1,2) idxFilter_def Let_def
    by (simp add: o b l g rel_mset_Zero rel_mset_of_list_all2 [OF Array(3)] split: option.splits)
qed (simp_all add: idxFilter_def rel_mset_Zero)

lemma idxFilter_panic:
  assumes "idxFilter f v = Inl e"
  shows "e = (if 2 \<le> length f \<and> Atoi (take (length f - 2) (drop 1 f)) = None \<and>
                 length (Split (take (length f - 2) (drop 1 f)) CHR '':'') < 2
              then IndexOutOfRange else SliceBoundsOutOfRange)"
  using assms
  by (cases v) (auto simp: idxFilter_def Let_def goSlice_def split: if_splits option.splits)

lemma appendAll_Inl: "appendAll g ws = Inl e \<Longrightarrow> \<exists>x \<in> set ws. g x = Inl e"
  by (induction ws) (auto split: sum.splits)

lemma appendAll_no_panic:
  "(\<And>x. x \<in> set ws \<Longrightarrow> \<not> isl (g x)) \<Longrightarrow> appendAll g ws = Inr (concat (map (\<lambda>x. outs (g x)) ws))"
proof (induction ws)
  case Nil
  then show ?case by simp
next
  case (Cons w ws)
  have "\<not> isl (g w)" using Cons.prems by simp
  then obtain ys where ys: "g w = Inr ys" by (cases "g w") simp_all
  have "appendAll g ws = Inr (concat (map (\<lambda>x. outs (g x)) ws))"
    by (rule Cons.IH) (simp add: Cons.prems)
  then show ?case by (simp add: ys outs_def)
qed

lemma appendAll_panic: "x \<in> set ws \<Longrightarrow> isl (g x) \<Longrightarrow> \<exists>e. appendAll g ws = Inl e"
  by (induction ws) (auto split: sum.splits)

text \<open>The outputs over two lists of values that correspond one to one.\<close>

lemma outs_rel:
  assumes "list_all2 reordered xs ys"
    and "\<And>x y. reordered x y \<Longrightarrow> sameOutcome (g x) (g y)"
  shows "((\<exists>x \<in> set xs. isl (g x)) \<longleftrightarrow> (\<exists>y \<in> set ys. isl (g y))) \<and>
         rel_mset reordered (mset (concat (map (\<lambda>x. outs (g x)) xs)))
                            (mset (concat (map (\<lambda>y. outs (g y)) ys)))"
  using assms(1)
proof (induction rule: list_all2_induct)
  case Nil
  then show ?case by (simp add: rel_mset_Zero)
next
  case (Cons a xs b ys)
  have s: "sameOutcome (g a) (g b)" using Cons(1) by (rule assms(2))
  then have i: "isl (g a) \<longleftrightarrow> isl (g b)"
    by (cases "g a"; cases "g b") simp_all
  have h: "rel_mset reordered (mset (outs (g a))) (mset (outs (g b)))"
    using s by (cases "g a"; cases "g b") (simp_all add: outs_def rel_mset_Zero)
  have t: "rel_mset reordered (mset (concat (map (\<lambda>x. outs (g x)) xs)))
             (mset (concat (map (\<lambda>y. outs (g y)) ys)))"
    using Cons.IH by blast
  have "rel_mset reordered
          (mset (outs (g a)) + mset (concat (map (\<lambda>x. outs (g x)) xs)))
          (mset (outs (g b)) + mset (concat (map (\<lambda>y. outs (g y)) ys)))"
    using h t by (rule rel_mset_union)
  then have "rel_mset reordered (mset (concat (map (\<lambda>x. outs (g x)) (a # xs))))
               (mset (concat (map (\<lambda>y. outs (g y)) (b # ys))))"
    by simp
  moreover have "(\<exists>x \<in> set (a # xs). isl (g x)) \<longleftrightarrow> (\<exists>y \<in> set (b # ys). isl (g y))"
    using Cons.IH i by simp
  ultimately show ?case by blast
qed

lemma appendAll_reordered:
  assumes ws: "rel_mset reordered (mset ws1) (mset ws2)"
    and compat: "\<And>x y. reordered x y \<Longrightarrow> sameOutcome (g x) (g y)"
    and uniform: "\<And>x y e e'. g x = Inl e \<Longrightarrow> g y = Inl e' \<Longrightarrow> e = e'"
  shows "sameOutcome (appendAll g ws1) (appendAll g ws2)"
proof -
  from ws obtain xs ys where p: "mset xs = mset ws1" "mset ys = mset ws2"
    and l: "list_all2 reordered xs ys"
    by (auto simp: rel_mset_def)
  have sets: "set xs = set ws1" "set ys = set ws2"
    by (rule mset_eq_setD [OF p(1)]) (rule mset_eq_setD [OF p(2)])
  have c: "mset (concat (map (\<lambda>x. outs (g x)) xs)) = mset (concat (map (\<lambda>x. outs (g x)) ws1))"
    "mset (concat (map (\<lambda>x. outs (g x)) ys)) = mset (concat (map (\<lambda>x. outs (g x)) ws2))"
    by (rule mset_concat_perm [OF p(1)]) (rule mset_concat_perm [OF p(2)])
  have r: "((\<exists>x \<in> set xs. isl (g x)) \<longleftrightarrow> (\<exists>y \<in> set ys. isl (g y))) \<and>
         rel_mset reordered (mset (concat (map (\<lambda>x. outs (g x)) xs)))
                            (mset (concat (map (\<lambda>y. outs (g y)) ys)))"
    using l by (rule outs_rel [where g = g]) (rule compat)
  have r1: "(\<exists>x \<in> set ws1. isl (g x)) \<longleftrightarrow> (\<exists>y \<in> set ws2. isl (g y))"
    using r [THEN conjunct1] by (simp only: sets)
  have r2: "rel_mset reordered (mset (concat (map (\<lambda>x. outs (g x)) ws1)))
              (mset (concat (map (\<lambda>x. outs (g x)) ws2)))"
    using r [THEN conjunct2] by (simp only: c)
  show ?thesis
  proof (cases "\<exists>x \<in> set ws1. isl (g x)")
    case True
    then obtain x1 where x1: "x1 \<in> set ws1" "isl (g x1)" by blast
    from appendAll_panic [where g = g, OF x1] obtain e1 where e1: "appendAll g ws1 = Inl e1" by blast
    from True r1 obtain y1 where y1: "y1 \<in> set ws2" "isl (g y1)" by blast
    from appendAll_panic [where g = g, OF y1] obtain e2 where e2: "appendAll g ws2 = Inl e2" by blast
    from appendAll_Inl [OF e1] obtain x where x: "g x = Inl e1" by blast
    from appendAll_Inl [OF e2] obtain y where y: "g y = Inl e2" by blast
    have "e1 = e2" using x y by (rule uniform)
    then show ?thesis by (simp only: e1 e2 sameOutcome_Inl)
  next
    case False
    then have n1: "\<And>x. x \<in> set ws1 \<Longrightarrow> \<not> isl (g x)" by blast
    from False r1 have n2: "\<And>y. y \<in> set ws2 \<Longrightarrow> \<not> isl (g y)" by blast
    show ?thesis
      using r2 by (simp only: appendAll_no_panic [OF n1] appendAll_no_panic [OF n2] sameOutcome_Inr)
  qed
qed

text \<open>The filters on a segment text as the matcher yields it.\<close>

lemma filters_reordered:
  assumes "i < 3" "2 \<le> length t" "reordered x y"
  shows "sameOutcome ((map snd filterMapping ! i) t x) ((map snd filterMapping ! i) t y)"
proof -
  have "i = 0 \<or> i = 1 \<or> i = 2" using assms(1) by auto
  then show ?thesis
  proof (elim disjE)
    assume i: "i = 0"
    have "sameOutcome (descendingAttributeFilter t x) (descendingAttributeFilter t y)"
      using descendantSpec_reordered [OF assms(3), of "drop 2 t"]
      by (simp add: descendingAttributeFilter_spec [OF assms(2)])
    then show ?thesis by (simp add: i filterMapping_def)
  next
    assume i: "i = 1"
    show ?thesis using attributeFilter_reordered [OF assms(3), of t] by (simp add: i filterMapping_def)
  next
    assume i: "i = 2"
    show ?thesis using idxFilter_reordered [OF assms(3), of t] by (simp add: i filterMapping_def)
  qed
qed

lemma filters_uniform:
  assumes "i < 3" "2 \<le> length t"
    and "(map snd filterMapping ! i) t x = Inl e" "(map snd filterMapping ! i) t y = Inl e'"
  shows "e = e'"
proof -
  have ne: "t \<noteq> []" using assms(2) by auto
  have "i = 0 \<or> i = 1 \<or> i = 2" using assms(1) by auto
  then show ?thesis
  proof (elim disjE)
    assume "i = 0"
    then show ?thesis
      using assms(3) by (simp add: filterMapping_def descendingAttributeFilter_spec [OF assms(2)])
  next
    assume "i = 1"
    then show ?thesis
      using assms(3) attributeFilter_total [OF ne, of x] by (auto simp: filterMapping_def)
  next
    assume "i = 2"
    then have "idxFilter t x = Inl e" "idxFilter t y = Inl e'"
      using assms(3,4) by (simp_all add: filterMapping_def)
    then show ?thesis using idxFilter_panic [of t x e] idxFilter_panic [of t y e'] by simp
  qed
qed

lemma FindAll_segments:
  "seg \<in> set (FindAllStringSubmatch (map fst filterMapping) s) \<Longrightarrow> segmentOK seg"
proof (induction s rule: length_induct)
  case (1 s)
  let ?A = "map fst filterMapping"
  show ?case
  proof (cases "s = []")
    case True
    then show ?thesis using "1.prems" by simp
  next
    case False
    show ?thesis
    proof (cases "matchAlts ?A s")
      case None
      have "length (tl s) < length s" using False by simp
      moreover have "seg \<in> set (FindAllStringSubmatch ?A (tl s))"
        using "1.prems" FindAll_None [OF False None] by simp
      ultimately show ?thesis using "1.IH" by blast
    next
      case (Some p)
      obtain i n where p: "p = (i, n)" by (cases p)
      from matchAlts_len [of s i n] Some p have n: "i < 3" "2 \<le> n" "n \<le> length s" by auto
      have l: "length (drop (max 1 n) s) < length s" using n False by simp
      have "FindAllStringSubmatch ?A s =
              submatches 3 i (take n s) # FindAllStringSubmatch ?A (drop (max 1 n) s)"
        using FindAll_Some [OF False, of ?A i n] Some p by (simp only: length_alts)
      then have "seg = submatches 3 i (take n s) \<or>
                 seg \<in> set (FindAllStringSubmatch ?A (drop (max 1 n) s))"
        using "1.prems" by simp
      then show ?thesis
      proof
        assume "seg = submatches 3 i (take n s)"
        moreover have "2 \<le> length (take n s)" using n by simp
        ultimately show ?thesis using n(1) unfolding segmentOK_def by blast
      next
        assume "seg \<in> set (FindAllStringSubmatch ?A (drop (max 1 n) s))"
        then show ?thesis using "1.IH" l by blast
      qed
    qed
  qed
qed

lemma querySegments_reordered:
  assumes "\<And>seg. seg \<in> set segs \<Longrightarrow> segmentOK seg"
    and "rel_mset reordered (mset ws1) (mset ws2)"
  shows "sameOutcome (querySegments (map snd filterMapping) ws1 segs)
                     (querySegments (map snd filterMapping) ws2 segs)"
  using assms
proof (induction segs arbitrary: ws1 ws2)
  case Nil
  then show ?case by simp
next
  case (Cons seg segs)
  let ?F = "map snd filterMapping"
  from Cons.prems(1) [of seg] obtain i t where
    seg: "seg = submatches 3 i t" and i: "i < 3" and t: "2 \<le> length t"
    unfolding segmentOK_def by auto
  have ne: "t \<noteq> []" using t by auto
  have s: "sameOutcome (appendAll ((?F ! i) t) ws1) (appendAll ((?F ! i) t) ws2)"
    using Cons.prems(2)
  proof (rule appendAll_reordered)
    show "\<And>x y. reordered x y \<Longrightarrow> sameOutcome ((?F ! i) t x) ((?F ! i) t y)"
      by (rule filters_reordered [OF i t])
    show "\<And>x y e e'. (?F ! i) t x = Inl e \<Longrightarrow> (?F ! i) t y = Inl e' \<Longrightarrow> e = e'"
      by (rule filters_uniform [OF i t])
  qed
  show ?case
  proof (cases "appendAll ((?F ! i) t) ws1")
    case (Inl e)
    then show ?thesis
      using s by (cases "appendAll ((?F ! i) t) ws2")
        (simp_all add: seg querySegments_step [OF i ne] del: querySegments.simps)
  next
    case (Inr zs1)
    then obtain zs2 where z: "appendAll ((?F ! i) t) ws2 = Inr zs2"
      using s by (cases "appendAll ((?F ! i) t) ws2") simp_all
    have "rel_mset reordered (mset zs1) (mset zs2)" using s Inr z by simp
    then have "sameOutcome (querySegments ?F zs1 segs) (querySegments ?F zs2 segs)"
      using Cons.IH Cons.prems(1) by simp
    then show ?thesis by (simp add: seg querySegments_step [OF i ne] Inr z del: querySegments.simps)
  qed
qed


text \<open>
  C6, as the code has it. Two runs of \<open>Query\<close> with one expression over one document,
  each ranging over the maps in an order of its own, end alike: both in the same panic,
  or both with sequences that hold the same values equally often. The order of the
  sequence is not part of it.
\<close>

theorem Query_reordered:
  assumes "reordered (JObject d1) (JObject d2)"
  shows "sameOutcome (Query d1 sel) (Query d2 sel)"
proof -
  have "rel_mset reordered (mset [JObject d1]) (mset [JObject d2])"
    using assms by (simp add: rel_mset_Plus rel_mset_Zero)
  then have "sameOutcome
      (querySegments (map snd filterMapping) [JObject d1]
         (FindAllStringSubmatch (map fst filterMapping) sel))
      (querySegments (map snd filterMapping) [JObject d2]
         (FindAllStringSubmatch (map fst filterMapping) sel))"
    by (rule querySegments_reordered [rotated]) (rule FindAll_segments)
  then show ?thesis by (simp only: Query_def QueryWith_def Let_def)
qed

theorem Query_reordered_witness:
  "reordered (JObject [(''x'', JObject [(''a'', JNumber 1)]), (''y'', JObject [(''a'', JNumber 2)])])
     (JObject [(''y'', JObject [(''a'', JNumber 2)]), (''x'', JObject [(''a'', JNumber 1)])]) \<and>
   sameOutcome
     (Query [(''x'', JObject [(''a'', JNumber 1)]), (''y'', JObject [(''a'', JNumber 2)])] ''$..a'')
     (Query [(''y'', JObject [(''a'', JNumber 2)]), (''x'', JObject [(''a'', JNumber 1)])] ''$..a'')"
proof -
  have a: "reordered (JObject [(''a'', JNumber 1)]) (JObject [(''a'', JNumber 1)])"
    by (rule reordered.Object [where m' = "[(''a'', JNumber 1)]"]) (simp_all add: reordered.Number)
  have b: "reordered (JObject [(''a'', JNumber 2)]) (JObject [(''a'', JNumber 2)])"
    by (rule reordered.Object [where m' = "[(''a'', JNumber 2)]"]) (simp_all add: reordered.Number)
  have r: "reordered (JObject [(''x'', JObject [(''a'', JNumber 1)]), (''y'', JObject [(''a'', JNumber 2)])])
     (JObject [(''y'', JObject [(''a'', JNumber 2)]), (''x'', JObject [(''a'', JNumber 1)])])"
    by (rule reordered.Object
          [where m' = "[(''x'', JObject [(''a'', JNumber 1)]), (''y'', JObject [(''a'', JNumber 2)])]"])
       (simp_all add: a b)
  show ?thesis using r Query_reordered [OF r, of "''$..a''"] by simp
qed

text \<open>
  C6 as stated fails: the two listings below are one document, the object \<open>x\<close> and
  the object \<open>y\<close> under the root, ranged over in the two possible orders, and the
  descendant search returns the two matches in the two orders.
\<close>

theorem Query_order_counterexample:
  "reordered (JObject [(''x'', JObject [(''a'', JNumber 1)]), (''y'', JObject [(''a'', JNumber 2)])])
     (JObject [(''y'', JObject [(''a'', JNumber 2)]), (''x'', JObject [(''a'', JNumber 1)])]) \<and>
   Query [(''x'', JObject [(''a'', JNumber 1)]), (''y'', JObject [(''a'', JNumber 2)])] ''$..a''
     = Inr [JNumber 1, JNumber 2] \<and>
   Query [(''y'', JObject [(''a'', JNumber 2)]), (''x'', JObject [(''a'', JNumber 1)])] ''$..a''
     = Inr [JNumber 2, JNumber 1] \<and>
   Query [(''x'', JObject [(''a'', JNumber 1)]), (''y'', JObject [(''a'', JNumber 2)])] ''$..a''
     \<noteq> Query [(''y'', JObject [(''a'', JNumber 2)]), (''x'', JObject [(''a'', JNumber 1)])] ''$..a''"
proof -
  have a: "reordered (JObject [(''a'', JNumber 1)]) (JObject [(''a'', JNumber 1)])"
    by (rule reordered.Object [where m' = "[(''a'', JNumber 1)]"]) (simp_all add: reordered.Number)
  have b: "reordered (JObject [(''a'', JNumber 2)]) (JObject [(''a'', JNumber 2)])"
    by (rule reordered.Object [where m' = "[(''a'', JNumber 2)]"]) (simp_all add: reordered.Number)
  have r: "reordered (JObject [(''x'', JObject [(''a'', JNumber 1)]), (''y'', JObject [(''a'', JNumber 2)])])
     (JObject [(''y'', JObject [(''a'', JNumber 2)]), (''x'', JObject [(''a'', JNumber 1)])])"
    by (rule reordered.Object
          [where m' = "[(''x'', JObject [(''a'', JNumber 1)]), (''y'', JObject [(''a'', JNumber 2)])]"])
       (simp_all add: a b)
  have q1: "Query [(''x'', JObject [(''a'', JNumber 1)]), (''y'', JObject [(''a'', JNumber 2)])] ''$..a''
     = Inr [JNumber 1, JNumber 2]"
    by code_simp
  have q2: "Query [(''y'', JObject [(''a'', JNumber 2)]), (''x'', JObject [(''a'', JNumber 1)])] ''$..a''
     = Inr [JNumber 2, JNumber 1]"
    by code_simp
  show ?thesis using r q1 q2 by simp
qed

subsection \<open>Index filter: slices\<close>

lemma Atoi_colon: "CHR '':'' \<in> set s \<Longrightarrow> Atoi s = None"
proof (rule ccontr)
  assume b: "CHR '':'' \<in> set s" and "Atoi s \<noteq> None"
  then obtain i where "Atoi s = Some i" by auto
  from Atoi_chars [OF this b] show False by (simp add: isDigit_def)
qed

lemma Split_no_sep: "sep \<notin> set s \<Longrightarrow> Split s sep = [s]"
  by (induction s) auto

text \<open>A spec with a colon: the first two pieces decide, whatever follows them.\<close>

lemma idxFilter_slice:
  assumes "CHR '':'' \<notin> set a"
  shows "idxFilter (CHR ''['' # a @ CHR '':'' # rest @ '']'') (JArray xs) =
           (case sliceBound a 0 xs of
              None \<Rightarrow> Inr []
            | Some start \<Rightarrow>
                (case sliceBound (takeWhile (\<lambda>c. c \<noteq> CHR '':'') rest) (int (length xs)) xs of
                   None \<Rightarrow> Inr []
                 | Some end \<Rightarrow> goSlice xs start end))"
proof -
  let ?f = "a @ CHR '':'' # rest"
  have strip: "take (length (CHR ''['' # a @ CHR '':'' # rest @ '']'') - 2)
                 (drop 1 (CHR ''['' # a @ CHR '':'' # rest @ '']'')) = ?f"
    by simp
  have ns: "?f \<noteq> ''*''" by (cases a) auto
  have at: "Atoi ?f = None" by (rule Atoi_colon) simp
  have sp: "Split ?f CHR '':'' = a # Split rest CHR '':''"
    by (rule Split_at_sep [OF assms])
  obtain ps where ps: "Split rest CHR '':'' = takeWhile (\<lambda>c. c \<noteq> CHR '':'') rest # ps"
    using Split_hd by blast
  show ?thesis
    unfolding idxFilter_def strip Let_def
    by (simp add: ns at sp ps del: Split.simps split: option.splits)
qed

lemma sliceBound_range:
  assumes "sliceBound p d xs = Some v" "length xs < 2 ^ 53" "0 \<le> d" "d \<le> int (length xs)"
  shows "0 \<le> v \<and> v \<le> int (length xs)"
  using assms
  by (auto simp: sliceBound_def outOfRange_iff split: if_splits option.splits)

text \<open>
  With both bounds accepted, the slice is cut when start does not exceed end, and the
  slice expression panics when it does.
\<close>

lemma idxFilter_slice_outcome:
  assumes "CHR '':'' \<notin> set a" "length xs < 2 ^ 53"
    and "sliceBound a 0 xs = Some start"
    and "sliceBound (takeWhile (\<lambda>c. c \<noteq> CHR '':'') rest) (int (length xs)) xs = Some end"
  shows "idxFilter (CHR ''['' # a @ CHR '':'' # rest @ '']'') (JArray xs) =
           (if start \<le> end then Inr (take (nat end - nat start) (drop (nat start) xs))
            else Inl SliceBoundsOutOfRange)"
proof -
  have "0 \<le> start \<and> start \<le> int (length xs)"
    by (rule sliceBound_range [OF assms(3,2)]) simp_all
  moreover have "0 \<le> end \<and> end \<le> int (length xs)"
    by (rule sliceBound_range [OF assms(4,2)]) simp_all
  ultimately show ?thesis
    by (simp add: idxFilter_slice [OF assms(1)] assms(3,4) goSlice_def)
qed

text \<open>A spec without a colon that is neither the wildcard nor an integer.\<close>

lemma idxFilter_malformed:
  assumes "f \<noteq> []" "f \<noteq> ''*''" "Atoi f = None" "CHR '':'' \<notin> set f"
  shows "idxFilter (CHR ''['' # f @ '']'') v = Inr []"
proof (cases v)
  case (JArray xs)
  have strip: "take (length (CHR ''['' # f @ '']'') - 2) (drop 1 (CHR ''['' # f @ '']'')) = f"
    by simp
  have "sliceBound f 0 xs = None" using assms(1,3) by (simp add: sliceBound_def)
  then show ?thesis
    unfolding idxFilter_def strip Let_def JArray
    by (simp add: assms Split_no_sep del: Split.simps)
qed (simp_all add: idxFilter_def)


text \<open>
  C3. A slice whose normalized start lies beyond its normalized end is cut as it stands:
  on the three-element array the spec \<^verbatim>\<open>2:1\<close> has both bounds in range, start 2 and
  end 1, and the filter, and a query through it, end in the panic of the slice expression;
  only the range of length zero (\<^verbatim>\<open>1:1\<close>) gives the empty sequence.
\<close>

theorem idxFilter_reversed_slice_panics:
  "idxFilter ''[2:1]'' (JArray [JString ''a'', JString ''b'', JString ''c'']) = Inl SliceBoundsOutOfRange \<and>
   Query [(''a'', JArray [JString ''a'', JString ''b'', JString ''c''])] ''$.a[2:1]'' = Inl SliceBoundsOutOfRange \<and>
   idxFilter ''[1:1]'' (JArray [JString ''a'', JString ''b'', JString ''c'']) = Inr []"
  by code_simp

text \<open>
  C4. The pieces after the second are never looked at: the spec \<^verbatim>\<open>1:2:3\<close>, with two
  colons, is answered like \<^verbatim>\<open>1:2\<close>, by the element at position 1.
\<close>

theorem idxFilter_extra_colons_partial:
  "idxFilter ''[1:2:3]'' (JArray [JString ''a'', JString ''b'', JString ''c'']) = Inr [JString ''b''] \<and>
   Query [(''a'', JArray [JString ''a'', JString ''b'', JString ''c''])] ''$.a[1:2:3]'' = Inr [JString ''b'']"
  by code_simp

end
